theory Spec2Isabelle
  imports Complex_Main "HOL-Library.Word" "HOL-Library.Multiset"
begin

section \<open>Arrays and errors\<close>

text \<open>
  The helpers of the notebook work on numpy arrays.  An array is modelled by its shape
  together with its cells as nested lists (row-major, as numpy indexes them).  Keeping
  the shape beside the cells lets an array with zero rows still have a width, as numpy
  arrays do.  Every exception the helpers can raise is a value of \<open>error\<close>.
\<close>

datatype error =
  ValueError | IndexError | OverflowError | NotADirectoryError | IsADirectoryError | OSError

datatype 'a ndarray =
    Arr2 nat nat "'a list list"
  | Arr3 nat nat nat "'a list list list"

text \<open>A kernel is a two-dimensional array: \<open>kernel.shape[0]\<close> rows, \<open>kernel.shape[1]\<close> columns.\<close>

datatype 'a matrix = Matrix (nrows: nat) (ncols: nat) (entries: "'a list list")

fun shape :: "'a ndarray \<Rightarrow> nat list" where
  "shape (Arr2 h w rows) = [h, w]"
| "shape (Arr3 h w c rows) = [h, w, c]"

text \<open>The cells agree with the shape (numpy arrays are rectangular).\<close>

fun wf_ndarray :: "'a ndarray \<Rightarrow> bool" where
  "wf_ndarray (Arr2 h w rows) = (length rows = h \<and> list_all (\<lambda>r. length r = w) rows)"
| "wf_ndarray (Arr3 h w c rows) =
     (length rows = h \<and> list_all (\<lambda>r. length r = w \<and> list_all (\<lambda>p. length p = c) r) rows)"

fun wf_matrix :: "'a matrix \<Rightarrow> bool" where
  "wf_matrix (Matrix kh kw kv) = (length kv = kh \<and> list_all (\<lambda>r. length r = kw) kv)"

text \<open>
  \<open>pixel a i j\<close> is the vector of channel values at row \<open>i\<close>, column \<open>j\<close>: one value
  for a two-dimensional (grayscale) array, \<open>shape[2]\<close> values for a three-dimensional one.
\<close>

fun pixel :: "'a ndarray \<Rightarrow> nat \<Rightarrow> nat \<Rightarrow> 'a list" where
  "pixel (Arr2 h w rows) i j = [rows ! i ! j]"
| "pixel (Arr3 h w c rows) i j = rows ! i ! j"

fun channels :: "'a ndarray \<Rightarrow> nat" where
  "channels (Arr2 h w rows) = 1"
| "channels (Arr3 h w c rows) = c"

text \<open>\<open>img.shape[0]\<close> and \<open>img.shape[1]\<close>.\<close>

fun img_height :: "'a ndarray \<Rightarrow> nat" where
  "img_height (Arr2 h w rows) = h"
| "img_height (Arr3 h w c rows) = h"

fun img_width :: "'a ndarray \<Rightarrow> nat" where
  "img_width (Arr2 h w rows) = w"
| "img_width (Arr3 h w c rows) = w"

section \<open>pad_img\<close>

text \<open>
  \<^verbatim>\<open>np.pad(a, ((ph, ph), (pw, pw)), 'constant')\<close> puts \<open>ph\<close> rows of the constant
  above and below and \<open>pw\<close> cells of it left and right of every row; \<open>z\<close> is the cell
  it writes (0 on a 2-D array, a vector of zeros on a 3-D array whose last axis is padded
  by \<open>(0, 0)\<close>).  A negative pad width raises ValueError.  The two equations of
  \<open>np_pad\<close> are the two calls of \<open>pad_img\<close>, for \<open>len(img.shape) == 2\<close> and for a
  three-dimensional image.
\<close>

definition pad_cells :: "nat \<Rightarrow> nat \<Rightarrow> nat \<Rightarrow> 'c \<Rightarrow> 'c list list \<Rightarrow> 'c list list" where
  "pad_cells ph pw w z rows =
     replicate ph (replicate (pw + w + pw) z)
     @ map (\<lambda>r. replicate pw z @ r @ replicate pw z) rows
     @ replicate ph (replicate (pw + w + pw) z)"

fun np_pad :: "'a::zero ndarray \<Rightarrow> int \<Rightarrow> int \<Rightarrow> error + 'a ndarray" where
  "np_pad (Arr2 h w rows) ph pw =
     (if ph < 0 \<or> pw < 0 then Inl ValueError
      else Inr (Arr2 (nat ph + h + nat ph) (nat pw + w + nat pw)
                  (pad_cells (nat ph) (nat pw) w 0 rows)))"
| "np_pad (Arr3 h w c rows) ph pw =
     (if ph < 0 \<or> pw < 0 then Inl ValueError
      else Inr (Arr3 (nat ph + h + nat ph) (nat pw + w + nat pw) c
                  (pad_cells (nat ph) (nat pw) w (replicate c 0) rows)))"

text \<open>
  \<^verbatim>\<open>
  def pad_img(img, kernel):
      pad_height = (kernel.shape[0] - 1) // 2
      pad_width = (kernel.shape[1] - 1) // 2
      if len(img.shape) == 2:
          return np.pad(img, ((pad_height, pad_height), (pad_width, pad_width)), 'constant')
      return np.pad(img, ((pad_height, pad_height), (pad_width, pad_width), (0, 0)), 'constant')
  \<close>
  Python's \<open>//\<close> rounds down, as \<open>div\<close> on \<open>int\<close> does, so a kernel with no rows
  gives the pad width \<open>-1\<close>.
\<close>

definition pad_img :: "'a::zero ndarray \<Rightarrow> 'b matrix \<Rightarrow> error + 'a ndarray" where
  "pad_img img kern =
     (let pad_height = (int (nrows kern) - 1) div 2;
          pad_width = (int (ncols kern) - 1) div 2
      in np_pad img pad_height pad_width)"

section \<open>convolve2D\<close>

text \<open>
  The image read by the notebook is an array of unsigned bytes and the integer kernels of
  \<open>get_kernels\<close> are arrays of 64-bit integers, so \<open>slice * kernel\<close> is computed in
  64-bit integers (numpy promotes the bytes), \<open>np.sum\<close> adds with wrap-around at 64 bits,
  \<open>np.maximum(., 0)\<close> compares signed values and \<open>astype('uint8')\<close> keeps the low eight
  bits.  Kernels with fractional entries (the two blurs) compute in floating point and are
  outside this model.
\<close>

type_synonym uint8 = "8 word"
type_synonym int64 = "64 word"

text \<open>\<open>np.expand_dims(img, axis=2)\<close> on a 2-D array: every cell becomes a one-channel pixel.\<close>

fun expand_dims_axis2 :: "'a ndarray \<Rightarrow> 'a ndarray" where
  "expand_dims_axis2 (Arr2 h w rows) = Arr3 h w 1 (map (map (\<lambda>x. [x])) rows)"
| "expand_dims_axis2 (Arr3 h w c rows) = Arr3 h w c rows"

text \<open>The cells of an array read as a three-dimensional one (those of its \<open>expand_dims\<close>).\<close>

fun cells3 :: "'a ndarray \<Rightarrow> 'a list list list" where
  "cells3 (Arr2 h w rows) = map (map (\<lambda>x. [x])) rows"
| "cells3 (Arr3 h w c rows) = rows"

text \<open>\<open>img[i:i+kh, j:j+kw, k]\<close>: slices stop at the array's end, the channel is indexed.\<close>

definition slice_window :: "'a list list list \<Rightarrow> nat \<Rightarrow> nat \<Rightarrow> nat \<Rightarrow> nat \<Rightarrow> nat \<Rightarrow> 'a list list" where
  "slice_window cells i kh j kw k =
     map (\<lambda>r. map (\<lambda>p. p ! k) (take kw (drop j r))) (take kh (drop i cells))"

text \<open>\<open>np.sum(slice * kernel)\<close> for a slice and a kernel of the same shape.\<close>

definition sum_product :: "uint8 list list \<Rightarrow> int64 list list \<Rightarrow> int64" where
  "sum_product sl kv = sum_list (map sum_list (map2 (map2 (\<lambda>p c. ucast p * c)) sl kv))"

text \<open>\<open>np.concatenate\<close> of a list of arrays that are one cell long on the joined axis;
  it raises ValueError on the empty list.\<close>

fun np_concatenate :: "'a list \<Rightarrow> error + 'a list" where
  "np_concatenate [] = Inl ValueError"
| "np_concatenate (x # xs) = Inr (x # xs)"

text \<open>The results of a loop body that can raise: the first exception ends the loop.\<close>

fun collect :: "(error + 'a) list \<Rightarrow> error + 'a list" where
  "collect [] = Inr []"
| "collect (r # rs) =
     (case r of Inl e \<Rightarrow> Inl e
      | Inr x \<Rightarrow> (case collect rs of Inl e \<Rightarrow> Inl e | Inr xs \<Rightarrow> Inr (x # xs)))"

definition maximum0 :: "int64 \<Rightarrow> int64" where
  "maximum0 x = (if sint x < 0 then 0 else x)"

definition astype_uint8 :: "int64 \<Rightarrow> uint8" where
  "astype_uint8 x = ucast x"

text \<open>
  \<^verbatim>\<open>
  for k in range(img.shape[2]):
      slice = img[i:i+kernel.shape[0], j:j+kernel.shape[1], k]
      channels.append(np.expand_dims(np.sum(slice * kernel, keepdims=True), axis=0))
  row.append(np.concatenate(channels, axis=2))
  \<close>
\<close>

definition conv_channels :: "uint8 list list list \<Rightarrow> nat \<Rightarrow> int64 matrix \<Rightarrow> nat \<Rightarrow> nat \<Rightarrow> int64 list" where
  "conv_channels cells c kern i j =
     map (\<lambda>k. sum_product (slice_window cells i (nrows kern) j (ncols kern) k) (entries kern))
       [0..<c]"

definition conv_pixel :: "uint8 list list list \<Rightarrow> nat \<Rightarrow> int64 matrix \<Rightarrow> nat \<Rightarrow> nat \<Rightarrow> error + int64 list" where
  "conv_pixel cells c kern i j = np_concatenate (conv_channels cells c kern i j)"

text \<open>
  \<^verbatim>\<open>
  for j in range(width - kernel.shape[1] + 1):
      ...
  new_img.append(np.concatenate(row, axis=1))
  \<close>
  \<open>range\<close> of a number that is not positive is empty.
\<close>

definition conv_row :: "uint8 list list list \<Rightarrow> nat \<Rightarrow> nat \<Rightarrow> int64 matrix \<Rightarrow> nat \<Rightarrow> error + int64 list list" where
  "conv_row cells width c kern i =
     (case collect (map (conv_pixel cells c kern i)
                      [0..<nat (int width - int (ncols kern) + 1)]) of
        Inl e \<Rightarrow> Inl e
      | Inr row \<Rightarrow> np_concatenate row)"

definition conv_rows :: "uint8 list list list \<Rightarrow> nat \<Rightarrow> nat \<Rightarrow> nat \<Rightarrow> int64 matrix \<Rightarrow> error + int64 list list list" where
  "conv_rows cells height width c kern =
     (case collect (map (conv_row cells width c kern)
                      [0..<nat (int height - int (nrows kern) + 1)]) of
        Inl e \<Rightarrow> Inl e
      | Inr new_img \<Rightarrow> np_concatenate new_img)"

text \<open>
  \<^verbatim>\<open>
  def convolve2D(img, kernel):
      is_gray_scale = len(img.shape) == 2
      if is_gray_scale:
          img = np.expand_dims(img, axis=2)
      img = pad_img(img, kernel)
      height, width = img.shape[:2]
      new_img = []
      for i in range(height - kernel.shape[0] + 1):
          ...
      res = np.maximum(np.concatenate(new_img, axis=0), 0).astype('uint8')
      if is_gray_scale:
          return res[:, :, 0]
      return res
  \<close>
\<close>

fun is_gray_scale :: "'a ndarray \<Rightarrow> bool" where
  "is_gray_scale (Arr2 h w rows) = True"
| "is_gray_scale (Arr3 h w c rows) = False"

fun convolve_padded :: "bool \<Rightarrow> uint8 ndarray \<Rightarrow> int64 matrix \<Rightarrow> error + uint8 ndarray" where
  "convolve_padded gray (Arr3 height width c cells) kern =
     (case conv_rows cells height width c kern of
        Inl e \<Rightarrow> Inl e
      | Inr new_img \<Rightarrow>
          (let res = map (map (map (\<lambda>x. astype_uint8 (maximum0 x)))) new_img;
               out_h = nat (int height - int (nrows kern) + 1);
               out_w = nat (int width - int (ncols kern) + 1)
           in if gray then Inr (Arr2 out_h out_w (map (map (\<lambda>p. p ! 0)) res))
              else Inr (Arr3 out_h out_w c res)))"
| "convolve_padded gray (Arr2 height width cells) kern = Inl IndexError"

definition convolve2D :: "uint8 ndarray \<Rightarrow> int64 matrix \<Rightarrow> error + uint8 ndarray" where
  "convolve2D img kern =
     (let gray = is_gray_scale img;
          img3 = (if gray then expand_dims_axis2 img else img)
      in case pad_img img3 kern of
           Inl e \<Rightarrow> Inl e
         | Inr padded \<Rightarrow> convolve_padded gray padded kern)"


definition word_product_sum :: "uint8 ndarray \<Rightarrow> int64 matrix \<Rightarrow> nat \<Rightarrow> nat \<Rightarrow> nat \<Rightarrow> int64" where
  "word_product_sum P kern i j k =
     (\<Sum>a<nrows kern. \<Sum>b<ncols kern.
        ucast (pixel P (i + a) (j + b) ! k) * (entries kern ! a ! b))"

text \<open>
  One of the integer kernels of \<open>get_kernels\<close>:
  \<^verbatim>\<open>('Sharpen', np.array([[0, -1, 0], [-1, 5, -1], [0, -1, 0]]))\<close>
\<close>

definition sharpen :: "int64 matrix" where
  "sharpen = Matrix 3 3 [[0, -1, 0], [-1, 5, -1], [0, -1, 0]]"

section \<open>Indexing and slicing\<close>

text \<open>
  An integer index into an axis of length \<open>n\<close>, as numpy and Python read it: a negative
  index counts from the end, and an index outside \<open>-n .. n-1\<close> raises IndexError.
\<close>

definition np_index :: "nat \<Rightarrow> int \<Rightarrow> error + nat" where
  "np_index n j =
     (if 0 \<le> j \<and> j < int n then Inr (nat j)
      else if - int n \<le> j \<and> j < 0 then Inr (nat (j + int n))
      else Inl IndexError)"

text \<open>\<open>a[indices]\<close> with an array of integer indices: the rows of \<open>a\<close> at these indices.\<close>

definition take_indices :: "'a list \<Rightarrow> int list \<Rightarrow> error + 'a list" where
  "take_indices a indices =
     collect (map (\<lambda>j. case np_index (length a) j of Inl e \<Rightarrow> Inl e | Inr i \<Rightarrow> Inr (a ! i)) indices)"

text \<open>
  The bound of a slice \<open>a[:k]\<close> or \<open>a[k:]\<close> on an axis of length \<open>n\<close>: a negative \<open>k\<close>
  counts from the end, and the bound is clipped to \<open>0 .. n\<close>.
\<close>

definition slice_bound :: "nat \<Rightarrow> int \<Rightarrow> nat" where
  "slice_bound n k = (if k < 0 then nat (max 0 (int n + k)) else nat (min (int n) k))"

definition slice_to :: "int \<Rightarrow> 'a list \<Rightarrow> 'a list" where
  "slice_to k a = take (slice_bound (length a) k) a"

definition slice_from :: "int \<Rightarrow> 'a list \<Rightarrow> 'a list" where
  "slice_from k a = drop (slice_bound (length a) k) a"

section \<open>one_hot\<close>

text \<open>
  \<^verbatim>\<open>
  def one_hot(y):
      return np.eye(int(np.max(y)) + 1)[y.astype('int')]
  \<close>
  \<open>y\<close> is a vector of labels that hold integers (the loader makes them as floats
  \<open>i.0\<close>, which \<open>astype('int')\<close> and \<open>int(.)\<close> read back exactly); it is modelled as a list
  of integers.  \<open>np.max\<close> of an empty array raises ValueError, \<open>np.eye\<close> of a negative
  number raises ValueError, and the entries of \<open>np.eye\<close> are the floats 1.0 and 0.0,
  modelled as the numbers 1 and 0.
\<close>

fun np_max :: "int list \<Rightarrow> error + int" where
  "np_max [] = Inl ValueError"
| "np_max (x # xs) = Inr (fold max xs x)"

definition np_eye :: "int \<Rightarrow> error + rat list list" where
  "np_eye n =
     (if n < 0 then Inl ValueError
      else Inr (map (\<lambda>i. map (\<lambda>j. if i = j then 1 else 0) [0..<nat n]) [0..<nat n]))"

definition one_hot :: "int list \<Rightarrow> error + rat list list" where
  "one_hot y =
     (case np_max y of
        Inl e \<Rightarrow> Inl e
      | Inr m \<Rightarrow>
          (case np_eye (m + 1) of
             Inl e \<Rightarrow> Inl e
           | Inr eye \<Rightarrow> take_indices eye y))"

section \<open>train_test_split\<close>

text \<open>
  \<^verbatim>\<open>
  def train_test_split(X, y, val_split=0.2):
      index = int(X.shape[0] * (1 - val_split))
      return X[:index], y[:index], X[index:], y[index:]
  \<close>
  \<open>val_split\<close> is a Python float, an IEEE 754 double: a finite number, an infinity or
  NaN.  \<open>1 - val_split\<close> and the product are computed in double precision: the exact
  result of each operation is rounded to the nearest double, ties to the even significand.
\<close>

datatype double = Finite rat | PosInf | NegInf | NaN

definition round_half_even :: "rat \<Rightarrow> int" where
  "round_half_even q =
     (let f = \<lfloor>q\<rfloor>; r = q - of_int f
      in if r < 1 / 2 then f else if 1 / 2 < r then f + 1
         else if even f then f else f + 1)"

text \<open>
  The exponent \<open>e\<close> of a positive rational \<open>x\<close>: \<open>2 ^ e \<le> x < 2 ^ (e + 1)\<close>.  With
  \<open>x = p / q\<close> and the numbers of binary digits of \<open>p\<close> and \<open>q\<close> it is their
  difference or one less.
\<close>

function bit_length :: "int \<Rightarrow> int" where
  "bit_length p = (if p \<le> 0 then 0 else bit_length (p div 2) + 1)"
  by auto
termination
  by (relation "measure nat") auto

declare bit_length.simps [simp del]

definition binary_exponent :: "rat \<Rightarrow> int" where
  "binary_exponent x =
     (let (p, q) = quotient_of x;
          d = bit_length p - bit_length q
      in if 2 powi d \<le> x then d else d - 1)"

text \<open>
  The doubles near a positive \<open>a\<close> are the multiples of \<open>ulp a\<close>: 53 significant bits
  down to the exponent \<open>-1022\<close>, and the multiples of \<open>2 ^ -1074\<close> below (the subnormal
  numbers).  \<open>float_round\<close> rounds a rational to the nearest of them; a result that reaches
  \<open>2 ^ 1024\<close> is beyond the largest double and becomes an infinity.  The two zeros are not
  told apart (\<open>int\<close> gives 0 on both).
\<close>

definition ulp :: "rat \<Rightarrow> rat" where
  "ulp a = 2 powi (max (binary_exponent a) (- 1022) - 52)"

definition float_round :: "rat \<Rightarrow> double" where
  "float_round x =
     (if x = 0 then Finite 0
      else (let a = \<bar>x\<bar>;
                r = of_int (round_half_even (a / ulp a)) * ulp a
            in if 2 powi 1024 \<le> r then (if 0 < x then PosInf else NegInf)
               else Finite (sgn x * r)))"

text \<open>Subtraction and multiplication of doubles, with the infinities and NaN.\<close>

fun float_sub :: "double \<Rightarrow> double \<Rightarrow> double" where
  "float_sub (Finite a) (Finite b) = float_round (a - b)"
| "float_sub NaN b = NaN"
| "float_sub a NaN = NaN"
| "float_sub PosInf PosInf = NaN"
| "float_sub NegInf NegInf = NaN"
| "float_sub PosInf b = PosInf"
| "float_sub NegInf b = NegInf"
| "float_sub a PosInf = NegInf"
| "float_sub a NegInf = PosInf"

fun float_sgn :: "double \<Rightarrow> rat" where
  "float_sgn (Finite a) = sgn a"
| "float_sgn PosInf = 1"
| "float_sgn NegInf = - 1"
| "float_sgn NaN = 0"

fun float_mul :: "double \<Rightarrow> double \<Rightarrow> double" where
  "float_mul (Finite a) (Finite b) = float_round (a * b)"
| "float_mul NaN b = NaN"
| "float_mul a NaN = NaN"
| "float_mul a b =
     (let s = float_sgn a * float_sgn b
      in if s = 0 then NaN else if 0 < s then PosInf else NegInf)"

text \<open>
  \<open>int(x)\<close> cuts the fraction of a finite float off and raises OverflowError on an
  infinity and ValueError on NaN.  In \<open>X.shape[0] * (1 - val_split)\<close> the integer
  \<open>X.shape[0]\<close> is converted to a float first, rounded as above, and the conversion
  raises OverflowError when the integer is beyond the largest double.
\<close>

fun py_int :: "double \<Rightarrow> error + int" where
  "py_int (Finite x) = Inr (if 0 \<le> x then \<lfloor>x\<rfloor> else \<lceil>x\<rceil>)"
| "py_int NaN = Inl ValueError"
| "py_int PosInf = Inl OverflowError"
| "py_int NegInf = Inl OverflowError"

definition int_to_float :: "int \<Rightarrow> error + double" where
  "int_to_float n =
     (case float_round (of_int n) of
        Finite x \<Rightarrow> Inr (Finite x)
      | PosInf \<Rightarrow> Inl OverflowError
      | NegInf \<Rightarrow> Inl OverflowError
      | NaN \<Rightarrow> Inl OverflowError)"

definition split_index :: "nat \<Rightarrow> double \<Rightarrow> error + int" where
  "split_index n val_split =
     (case int_to_float (int n) of
        Inl e \<Rightarrow> Inl e
      | Inr rows \<Rightarrow> py_int (float_mul rows (float_sub (Finite 1) val_split)))"

definition train_test_split ::
  "'a list \<Rightarrow> 'b list \<Rightarrow> double \<Rightarrow> error + 'a list \<times> 'b list \<times> 'a list \<times> 'b list" where
  "train_test_split X y val_split =
     (case split_index (length X) val_split of
        Inl e \<Rightarrow> Inl e
      | Inr index \<Rightarrow>
          Inr (slice_to index X, slice_to index y, slice_from index X, slice_from index y))"

section \<open>shuffle\<close>

text \<open>
  \<^verbatim>\<open>
  def shuffle(X, y):
      indices = np.arange(X.shape[0])
      np.random.shuffle(indices)
      return X[indices], y[indices]
  \<close>
  \<open>np.random.shuffle\<close> reorders its argument in place and advances numpy's global
  generator.  The generator is a state \<open>g\<close> threaded through the call, and the library
  routine is a parameter \<open>random_shuffle\<close> that takes the state and the array and returns
  the reordered array and the next state.
\<close>

definition shuffle ::
  "('g \<Rightarrow> int list \<Rightarrow> int list \<times> 'g) \<Rightarrow> 'g \<Rightarrow> 'a list \<Rightarrow> 'b list \<Rightarrow> (error + 'a list \<times> 'b list) \<times> 'g" where
  "shuffle random_shuffle g X y =
     (let arange = map int [0..<length X];
          (indices, g') = random_shuffle g arange
      in (case take_indices X indices of
            Inl e \<Rightarrow> Inl e
          | Inr X' \<Rightarrow>
              (case take_indices y indices of
                 Inl e \<Rightarrow> Inl e
               | Inr y' \<Rightarrow> Inr (X', y')),
          g'))"

section \<open>vectorize_sequences\<close>

text \<open>
  \<^verbatim>\<open>
  def vectorize_sequences(sequences, dimension=10000):
      results = np.zeros((len(sequences), dimension))
      for i, sequence in enumerate(sequences):
          results[i, sequence] = 1.
      return results
  \<close>
  A sequence is a Python list of integers.  \<open>np.zeros\<close> raises ValueError on a negative
  dimension.  The assignment \<open>results[i, sequence] = 1.\<close> reads every index of the
  sequence as numpy reads an index (IndexError outside the row, counting from the end when
  negative) and writes 1.0 there.  The floats 0.0 and 1.0 are modelled as 0 and 1.
\<close>

definition assign_ones :: "nat \<Rightarrow> int list \<Rightarrow> rat list list \<Rightarrow> nat \<Rightarrow> error + rat list list" where
  "assign_ones dimension sequence results i =
     (case collect (map (np_index dimension) sequence) of
        Inl e \<Rightarrow> Inl e
      | Inr js \<Rightarrow> Inr (results[i := fold (\<lambda>j row. row[j := 1]) js (results ! i)]))"

fun vectorize_loop :: "nat \<Rightarrow> nat \<Rightarrow> int list list \<Rightarrow> rat list list \<Rightarrow> error + rat list list" where
  "vectorize_loop dimension i [] results = Inr results"
| "vectorize_loop dimension i (sequence # rest) results =
     (case assign_ones dimension sequence results i of
        Inl e \<Rightarrow> Inl e
      | Inr results' \<Rightarrow> vectorize_loop dimension (i + 1) rest results')"

definition vectorize_sequences :: "int list list \<Rightarrow> int \<Rightarrow> error + rat list list" where
  "vectorize_sequences sequences dimension =
     (if dimension < 0 then Inl ValueError
      else vectorize_loop (nat dimension) 0 sequences
             (replicate (length sequences) (replicate (nat dimension) 0)))"

text \<open>The row after \<open>row[sequence] = 1.\<close> for a sequence of indices inside the row.\<close>

definition ones_row :: "nat \<Rightarrow> int list \<Rightarrow> rat list \<Rightarrow> rat list" where
  "ones_row d s row = fold (\<lambda>j row. row[j := 1]) (map nat s) row"

text \<open>A stand-in for the generator in the example of \<open>shuffle\<close>: it reverses the array.\<close>

definition reverse_shuffle :: "nat \<Rightarrow> int list \<Rightarrow> int list \<times> nat" where
  "reverse_shuffle g xs = (rev xs, Suc g)"

section \<open>get_data_from_dir\<close>

text \<open>
  \<^verbatim>\<open>
  def get_data_from_dir(path, size=[100, 100]):
      imgs = []
      labels = []
      labels_list = []
      files = os.listdir(path)
      for i, file in enumerate(files):
          img_names = os.listdir(os.path.join(path, file))
          labels.append(np.ones(len(img_names)) * i)
          labels_list.append(file)
          for img_name in img_names:
              with Image.open(os.path.join(path, file, img_name)) as img:
                  imgs.append(np.asarray(img.resize(size)))
      imgs = np.asarray(imgs)
      print('Found {} images belonging to {} different classes'.format(imgs.shape[0], len(labels_list)))
      return imgs, np.hstack(labels), labels_list
  \<close>
  The file system is the function's input: \<open>path\<close> is modelled by what is found there, a
  file (holding an image that \<open>Image.open\<close> can decode, or not) or a directory with its
  entries in the order \<open>os.listdir\<close> lists them.  \<open>os.listdir\<close> of a file raises
  NotADirectoryError, \<open>Image.open\<close> of a directory raises IsADirectoryError and of a file
  that is no image OSError.  Decoding and resizing belong to the imaging library:
  \<open>resize size img\<close> stands for \<open>np.asarray(img.resize(size))\<close>, which is the array of
  the resized image (two-dimensional for a one-channel image, three-dimensional otherwise)
  or an exception of the library (for a size that is not positive, or data that cannot be
  decoded).
  \<open>np.asarray(imgs)\<close> stacks the arrays of the list and raises ValueError when they are
  not all of one shape; the stacked array is modelled by the list of its rows.  The labels
  are the floats \<open>i.0\<close>, modelled as the numbers \<open>i\<close>.  \<open>np.hstack\<close> of an empty list
  raises ValueError.  The printed line is not modelled.
\<close>

datatype 'i entry = File "'i option" | Dir "(string \<times> 'i entry) list"

fun load_images ::
  "('s \<Rightarrow> 'i \<Rightarrow> error + 'a) \<Rightarrow> 's \<Rightarrow> (string \<times> 'i entry) list \<Rightarrow> 'a list \<Rightarrow> error + 'a list" where
  "load_images resize sz [] imgs = Inr imgs"
| "load_images resize sz ((img_name, e) # rest) imgs =
     (case e of
        Dir es \<Rightarrow> Inl IsADirectoryError
      | File None \<Rightarrow> Inl OSError
      | File (Some img) \<Rightarrow>
          (case resize sz img of
             Inl err \<Rightarrow> Inl err
           | Inr a \<Rightarrow> load_images resize sz rest (imgs @ [a])))"

fun load_classes ::
  "('s \<Rightarrow> 'i \<Rightarrow> error + 'a) \<Rightarrow> 's \<Rightarrow> nat \<Rightarrow> (string \<times> 'i entry) list \<Rightarrow>
   'a list \<times> nat list list \<times> string list \<Rightarrow> error + 'a list \<times> nat list list \<times> string list" where
  "load_classes resize sz i [] state = Inr state"
| "load_classes resize sz i ((file, e) # rest) (imgs, labels, labels_list) =
     (case e of
        File x \<Rightarrow> Inl NotADirectoryError
      | Dir img_names \<Rightarrow>
          (case load_images resize sz img_names imgs of
             Inl err \<Rightarrow> Inl err
           | Inr imgs' \<Rightarrow>
               load_classes resize sz (i + 1) rest
                 (imgs', labels @ [replicate (length img_names) i], labels_list @ [file])))"

definition np_hstack :: "'a list list \<Rightarrow> error + 'a list" where
  "np_hstack arrays = (if arrays = [] then Inl ValueError else Inr (concat arrays))"

fun same_shape :: "'p ndarray list \<Rightarrow> bool" where
  "same_shape [] = True"
| "same_shape (a # arrays) = list_all (\<lambda>b. shape b = shape a) arrays"

definition np_asarray :: "'p ndarray list \<Rightarrow> error + 'p ndarray list" where
  "np_asarray arrays = (if same_shape arrays then Inr arrays else Inl ValueError)"

definition get_data_from_dir ::
  "('s \<Rightarrow> 'i \<Rightarrow> error + 'p ndarray) \<Rightarrow> 'i entry \<Rightarrow> 's \<Rightarrow>
   error + 'p ndarray list \<times> nat list \<times> string list" where
  "get_data_from_dir resize path sz =
     (case path of
        File x \<Rightarrow> Inl NotADirectoryError
      | Dir files \<Rightarrow>
          (case load_classes resize sz 0 files ([], [], []) of
             Inl err \<Rightarrow> Inl err
           | Inr (img_list, labels, labels_list) \<Rightarrow>
               (case np_asarray img_list of
                  Inl err \<Rightarrow> Inl err
                | Inr imgs \<Rightarrow>
                    (case np_hstack labels of
                       Inl err \<Rightarrow> Inl err
                     | Inr all_labels \<Rightarrow> Inr (imgs, all_labels, labels_list)))))"

text \<open>
  The directories the loader is written for: every entry is a directory (a class) and
  every entry of a class is a file holding an image.  \<open>class_images\<close> are the images of a
  class, in listing order.
\<close>

fun is_image :: "string \<times> 'i entry \<Rightarrow> bool" where
  "is_image (name, File (Some img)) = True"
| "is_image (name, File None) = False"
| "is_image (name, Dir es) = False"

fun is_class_dir :: "string \<times> 'i entry \<Rightarrow> bool" where
  "is_class_dir (name, Dir es) = list_all is_image es"
| "is_class_dir (name, File x) = False"

fun image_of :: "string \<times> 'i entry \<Rightarrow> 'i list" where
  "image_of (name, File (Some img)) = [img]"
| "image_of (name, File None) = []"
| "image_of (name, Dir es) = []"

fun class_images :: "string \<times> 'i entry \<Rightarrow> 'i list" where
  "class_images (name, Dir es) = concat (map image_of es)"
| "class_images (name, File x) = []"

text \<open>
  An image that the library resizes without an exception, the array it gives, and an image
  resized to an array of the shape \<open>s\<close>.
\<close>

definition resizes :: "('s \<Rightarrow> 'i \<Rightarrow> error + 'a) \<Rightarrow> 's \<Rightarrow> 'i \<Rightarrow> bool" where
  "resizes resize sz img = (case resize sz img of Inl err \<Rightarrow> False | Inr a \<Rightarrow> True)"

definition array_of :: "('s \<Rightarrow> 'i \<Rightarrow> error + 'a) \<Rightarrow> 's \<Rightarrow> 'i \<Rightarrow> 'a" where
  "array_of resize sz img = projr (resize sz img)"

definition resized :: "('s \<Rightarrow> 'i \<Rightarrow> error + 'p ndarray) \<Rightarrow> 's \<Rightarrow> nat list \<Rightarrow> 'i \<Rightarrow> bool" where
  "resized resize sz s img = (resizes resize sz img \<and> shape (array_of resize sz img) = s)"

text \<open>
  A directory of two classes whose files hold one-channel images, a directory whose class
  mixes a one-channel and a three-channel image, and a stand-in for decoding and resizing
  that keeps the image as it is, for the examples.
\<close>

definition fruit_dir :: "(string \<times> nat ndarray entry) list" where
  "fruit_dir =
     [(''Apple'', Dir [(''0.jpg'', File (Some (Arr2 1 1 [[11]]))),
                       (''1.jpg'', File (Some (Arr2 1 1 [[12]])))]),
      (''Pear'', Dir [(''0.jpg'', File (Some (Arr2 1 1 [[21]])))])]"

definition mixed_dir :: "(string \<times> nat ndarray entry) list" where
  "mixed_dir =
     [(''Apple'', Dir [(''gray.png'', File (Some (Arr2 1 1 [[11]]))),
                       (''rgb.png'', File (Some (Arr3 1 1 3 [[[12, 13, 14]]])))])]"

definition keep_image :: "nat list \<Rightarrow> nat ndarray \<Rightarrow> error + nat ndarray" where
  "keep_image sz img = Inr img"

section \<open>organize_series\<close>


datatype 'a frame =
  Frame (frame_columns: "string list") (frame_index: "nat list") (frame_values: "'a option list list")








text \<open>
  \<open>df.shift(p)\<close> moves the rows down by \<open>p\<close> places (up when \<open>p\<close> is negative) under
  the same row labels; the rows that receive nothing are NaN.
\<close>

definition shift :: "'a frame \<Rightarrow> int \<Rightarrow> 'a frame" where
  "shift df p =
     (let rows = frame_values df;
          n = length rows;
          nan_row = replicate (length (frame_columns df)) None
      in Frame (frame_columns df) (frame_index df)
           (if 0 \<le> p then replicate (min (nat p) n) nan_row @ take (n - nat p) rows
            else drop (nat (- p)) rows @ replicate (min (nat (- p)) n) nan_row))"











section \<open>Properties of pad_img and convolve2D\<close>

subsection \<open>Padding\<close>

lemma length_pad_cells: "length (pad_cells ph pw w z rows) = ph + length rows + ph"
  by (simp add: pad_cells_def)

lemma pad_cells_nth:
  assumes "list_all (\<lambda>r. length r = w) rows" and "i < ph + length rows + ph" and "j < pw + w + pw"
  shows "pad_cells ph pw w z rows ! i ! j =
           (if ph \<le> i \<and> i < ph + length rows \<and> pw \<le> j \<and> j < pw + w
            then rows ! (i - ph) ! (j - pw) else z)"
proof -
  consider (top) "i < ph" | (mid) "ph \<le> i" "i < ph + length rows" | (bot) "ph + length rows \<le> i"
    by linarith
  then show ?thesis
  proof cases
    case top
    then show ?thesis using assms by (simp add: pad_cells_def nth_append)
  next
    case mid
    then have len: "length (rows ! (i - ph)) = w"
      using assms(1) by (simp add: list_all_length)
    from mid have lt: "i - ph < length rows" by linarith
    from mid lt have "pad_cells ph pw w z rows ! i =
        replicate pw z @ rows ! (i - ph) @ replicate pw z"
      by (simp add: pad_cells_def nth_append)
    then show ?thesis using mid len assms(3) by (auto simp add: nth_append)
  next
    case bot
    then have a: "\<not> i < ph" "\<not> i - ph < length rows" "i - ph - length rows < ph"
      using assms(2) by linarith+
    have "pad_cells ph pw w z rows ! i = replicate (pw + w + pw) z"
      using a by (simp add: pad_cells_def nth_append)
    then show ?thesis using bot assms(3) by simp
  qed
qed

lemma pad_cells_row_length:
  assumes "list_all (\<lambda>r. length r = w) rows"
  shows "list_all (\<lambda>r. length r = pw + w + pw) (pad_cells ph pw w z rows)"
  using assms by (auto simp add: pad_cells_def list_all_iff)

lemma pad_cells_pixel_length:
  assumes "list_all (\<lambda>r. length r = w \<and> list_all (\<lambda>p. length p = c) r) rows"
  shows "list_all (\<lambda>r. length r = pw + w + pw \<and> list_all (\<lambda>p. length p = c) r)
           (pad_cells ph pw w (replicate c z) rows)"
  using assms by (auto simp add: pad_cells_def list_all_iff)

lemma pad_amount_nat: "0 < k \<Longrightarrow> nat ((int k - 1) div 2) = (k - 1) div 2"
proof -
  assume "0 < k"
  then obtain n where k: "k = Suc n" by (cases k) auto
  have "int n div 2 = int (n div 2)" by (simp add: zdiv_int)
  then show ?thesis unfolding k by simp
qed

lemma pad_img_result:
  fixes img :: "'a::zero ndarray" and kern :: "'b matrix"
  assumes wf: "wf_ndarray img" and kh: "0 < nrows kern" and kw: "0 < ncols kern"
  shows "\<exists>P. pad_img img kern = Inr P \<and> wf_ndarray P \<and>
           shape P = [(nrows kern - 1) div 2 + img_height img + (nrows kern - 1) div 2,
                      (ncols kern - 1) div 2 + img_width img + (ncols kern - 1) div 2]
                     @ drop 2 (shape img)"
proof (cases img)
  case (Arr2 h w rows)
  then show ?thesis
    using wf kh kw
    by (simp add: pad_img_def Let_def pad_amount_nat length_pad_cells pad_cells_row_length)
next
  case (Arr3 h w c rows)
  then show ?thesis
    using wf kh kw
    by (simp add: pad_img_def Let_def pad_amount_nat length_pad_cells pad_cells_pixel_length)
qed

lemma pad_img_empty_kernel:
  "nrows kern = 0 \<or> ncols kern = 0 \<Longrightarrow> pad_img img kern = Inl ValueError"
  by (cases img) (auto simp add: pad_img_def Let_def)


subsection \<open>The loops of convolve2D\<close>

lemma np_concatenate_eq: "np_concatenate xs = (if xs = [] then Inl ValueError else Inr xs)"
  by (cases xs) simp_all

lemma collect_map_Inr: "collect (map (\<lambda>x. Inr (g x)) xs) = Inr (map g xs)"
  by (induction xs) simp_all

lemma collect_map_Inl: "xs \<noteq> [] \<Longrightarrow> collect (map (\<lambda>x. Inl e) xs) = Inl e"
  by (cases xs) simp_all

lemma conv_pixel_eq:
  "conv_pixel cells c kern i j =
     (if c = 0 then Inl ValueError else Inr (conv_channels cells c kern i j))"
  by (simp add: conv_pixel_def np_concatenate_eq conv_channels_def)

lemma conv_row_eq:
  "conv_row cells wd c kern i =
     (if c = 0 \<or> wd < ncols kern then Inl ValueError
      else Inr (map (conv_channels cells c kern i) [0..<wd + 1 - ncols kern]))"
proof -
  have n: "nat (int wd - int (ncols kern) + 1) = wd + 1 - ncols kern" by linarith
  show ?thesis
  proof (cases "wd < ncols kern")
    case True
    then have "wd + 1 - ncols kern = 0" by simp
    then show ?thesis using True by (simp add: conv_row_def n)
  next
    case False
    then have ne: "[0..<wd + 1 - ncols kern] \<noteq> []" by simp
    show ?thesis
    proof (cases "c = 0")
      case True
      then have "conv_pixel cells c kern i = (\<lambda>j. Inl ValueError)"
        by (simp add: conv_pixel_eq fun_eq_iff)
      then show ?thesis using True ne by (simp add: conv_row_def n collect_map_Inl)
    next
      case c: False
      then have "conv_pixel cells c kern i = (\<lambda>j. Inr (conv_channels cells c kern i j))"
        by (simp add: conv_pixel_eq fun_eq_iff)
      then show ?thesis using c False ne
        by (simp add: conv_row_def n collect_map_Inr np_concatenate_eq)
    qed
  qed
qed

lemma conv_rows_eq:
  "conv_rows cells ht wd c kern =
     (if c = 0 \<or> wd < ncols kern \<or> ht < nrows kern then Inl ValueError
      else Inr (map (\<lambda>i. map (conv_channels cells c kern i) [0..<wd + 1 - ncols kern])
                  [0..<ht + 1 - nrows kern]))"
proof -
  have n: "nat (int ht - int (nrows kern) + 1) = ht + 1 - nrows kern" by linarith
  show ?thesis
  proof (cases "ht < nrows kern")
    case True
    then have "ht + 1 - nrows kern = 0" by simp
    then show ?thesis using True by (simp add: conv_rows_def n)
  next
    case False
    then have ne: "[0..<ht + 1 - nrows kern] \<noteq> []" by simp
    show ?thesis
    proof (cases "c = 0 \<or> wd < ncols kern")
      case True
      then have "conv_row cells wd c kern = (\<lambda>i. Inl ValueError)"
        by (auto simp add: conv_row_eq fun_eq_iff)
      then show ?thesis using True ne by (simp add: conv_rows_def n collect_map_Inl)
    next
      case c: False
      then have "conv_row cells wd c kern =
          (\<lambda>i. Inr (map (conv_channels cells c kern i) [0..<wd + 1 - ncols kern]))"
        by (auto simp add: conv_row_eq fun_eq_iff)
      then show ?thesis using c False ne
        by (simp add: conv_rows_def n collect_map_Inr np_concatenate_eq)
    qed
  qed
qed

lemma sum_list_map2:
  fixes f :: "'a \<Rightarrow> 'b \<Rightarrow> 'c::comm_monoid_add"
  assumes "length xs = n" and "length ys = n"
  shows "sum_list (map2 f xs ys) = (\<Sum>a<n. f (xs ! a) (ys ! a))"
proof -
  have "sum_list (map2 f xs ys) = (\<Sum>a = 0..<n. map2 f xs ys ! a)"
    using assms by (simp add: sum_list_sum_nth)
  also have "\<dots> = (\<Sum>a = 0..<n. f (xs ! a) (ys ! a))"
    using assms by (intro sum.cong) simp_all
  finally show ?thesis by (simp add: atLeast0LessThan)
qed

lemma sum_product_eq:
  assumes "length sl = kh" and "length kv = kh"
    and "\<And>a. a < kh \<Longrightarrow> length (sl ! a) = kw" and "\<And>a. a < kh \<Longrightarrow> length (kv ! a) = kw"
  shows "sum_product sl kv = (\<Sum>a<kh. \<Sum>b<kw. ucast (sl ! a ! b) * (kv ! a ! b))"
proof -
  let ?f = "\<lambda>p c. (ucast (p :: uint8) :: int64) * c"
  have "sum_product sl kv = sum_list (map2 (\<lambda>r kr. sum_list (map2 ?f r kr)) sl kv)"
    by (simp add: sum_product_def comp_def case_prod_unfold)
  also have "\<dots> = (\<Sum>a<kh. sum_list (map2 ?f (sl ! a) (kv ! a)))"
    using assms(1,2) by (rule sum_list_map2)
  also have "\<dots> = (\<Sum>a<kh. \<Sum>b<kw. ?f (sl ! a ! b) (kv ! a ! b))"
    using assms(3,4) by (intro sum.cong refl sum_list_map2) simp_all
  finally show ?thesis .
qed

lemma slice_window_nth:
  assumes "i + kh \<le> length cells" and "a < kh" and "j + kw \<le> length (cells ! (i + a))" and "b < kw"
  shows "slice_window cells i kh j kw k ! a ! b = cells ! (i + a) ! (j + b) ! k"
  using assms by (simp add: slice_window_def)

lemma slice_window_length:
  assumes "i + kh \<le> length cells"
  shows "length (slice_window cells i kh j kw k) = kh"
  using assms by (simp add: slice_window_def)

lemma slice_window_row_length:
  assumes "i + kh \<le> length cells" and "a < kh" and "j + kw \<le> length (cells ! (i + a))"
  shows "length (slice_window cells i kh j kw k ! a) = kw"
  using assms by (simp add: slice_window_def)



lemma expand_dims_axis2_eq:
  "expand_dims_axis2 a = Arr3 (img_height a) (img_width a) (channels a) (cells3 a)"
  by (cases a) simp_all

lemma wf_cells3:
  "wf_ndarray a \<Longrightarrow> length (cells3 a) = img_height a"
  "wf_ndarray a \<Longrightarrow> i < img_height a \<Longrightarrow> length (cells3 a ! i) = img_width a"
  "wf_ndarray a \<Longrightarrow> i < img_height a \<Longrightarrow> j < img_width a \<Longrightarrow> cells3 a ! i ! j = pixel a i j"
  by (cases a; simp add: list_all_length)+

lemma pad_img_expand:
  "pad_img (expand_dims_axis2 img) kern =
     (case pad_img img kern of Inl e \<Rightarrow> Inl e | Inr P \<Rightarrow> Inr (expand_dims_axis2 P))"
  by (cases img) (simp_all add: pad_img_def Let_def pad_cells_def)

lemma pad_img_gray:
  "pad_img img kern = Inr P \<Longrightarrow> is_gray_scale P = is_gray_scale img"
  by (cases img) (auto simp add: pad_img_def Let_def split: if_splits)

lemma convolve2D_via_pad:
  "convolve2D img kern =
     (case pad_img img kern of
        Inl e \<Rightarrow> Inl e
      | Inr P \<Rightarrow> convolve_padded (is_gray_scale P) (expand_dims_axis2 P) kern)"
proof (cases "pad_img img kern")
  case (Inl e)
  then show ?thesis
    by (simp add: convolve2D_def Let_def pad_img_expand)
next
  case (Inr P)
  then have g: "is_gray_scale P = is_gray_scale img" by (rule pad_img_gray)
  show ?thesis
  proof (cases "is_gray_scale img")
    case True
    then show ?thesis using Inr g by (simp add: convolve2D_def Let_def pad_img_expand)
  next
    case False
    then have "expand_dims_axis2 P = P" using g by (cases P) simp_all
    then show ?thesis using Inr g False by (simp add: convolve2D_def Let_def)
  qed
qed


lemma wf_matrix_entries:
  "wf_matrix kern \<Longrightarrow> length (entries kern) = nrows kern"
  "wf_matrix kern \<Longrightarrow> a < nrows kern \<Longrightarrow> length (entries kern ! a) = ncols kern"
  by (cases kern; simp add: list_all_length)+

lemma conv_channels_nth:
  fixes P :: "uint8 ndarray"
  assumes wfP: "wf_ndarray P" and wfk: "wf_matrix kern"
    and i: "i + nrows kern \<le> img_height P" and j: "j + ncols kern \<le> img_width P"
    and k: "k < c"
  shows "conv_channels (cells3 P) c kern i j ! k = word_product_sum P kern i j k"
proof -
  let ?cells = "cells3 P" and ?kh = "nrows kern" and ?kw = "ncols kern"
  let ?sl = "slice_window ?cells i ?kh j ?kw k"
  have len: "i + ?kh \<le> length ?cells" using wfP i by (simp add: wf_cells3)
  have row: "j + ?kw \<le> length (?cells ! (i + a))" if "a < ?kh" for a
    using wfP i j that by (simp add: wf_cells3)
  have "conv_channels ?cells c kern i j ! k = sum_product ?sl (entries kern)"
    using k by (simp add: conv_channels_def)
  also have "\<dots> = (\<Sum>a<?kh. \<Sum>b<?kw. ucast (?sl ! a ! b) * (entries kern ! a ! b))"
    using len row wfk
    by (intro sum_product_eq) (simp_all add: slice_window_length slice_window_row_length wf_matrix_entries)
  also have "\<dots> = (\<Sum>a<?kh. \<Sum>b<?kw. ucast (pixel P (i + a) (j + b) ! k) * (entries kern ! a ! b))"
  proof (intro sum.cong refl)
    fix a b assume "a \<in> {..<?kh}" and "b \<in> {..<?kw}"
    then have a: "a < ?kh" and b: "b < ?kw" by simp_all
    have "?sl ! a ! b = ?cells ! (i + a) ! (j + b) ! k"
      using len a row[OF a] b by (rule slice_window_nth)
    also have "?cells ! (i + a) ! (j + b) = pixel P (i + a) (j + b)"
      using wfP i j a b by (intro wf_cells3) simp_all
    finally show "ucast (?sl ! a ! b) * (entries kern ! a ! b)
        = (ucast (pixel P (i + a) (j + b) ! k) :: int64) * (entries kern ! a ! b)"
      by simp
  qed
  finally show ?thesis by (simp add: word_product_sum_def)
qed


lemma convolve_padded_spec:
  fixes P :: "uint8 ndarray"
  assumes wfP: "wf_ndarray P" and wfk: "wf_matrix kern"
    and c: "0 < channels P" and hh: "nrows kern \<le> img_height P" and ww: "ncols kern \<le> img_width P"
  shows "\<exists>out. convolve_padded (is_gray_scale P) (expand_dims_axis2 P) kern = Inr out \<and>
      wf_ndarray out \<and>
      shape out = [img_height P + 1 - nrows kern, img_width P + 1 - ncols kern] @ drop 2 (shape P) \<and>
      (\<forall>i<img_height P + 1 - nrows kern. \<forall>j<img_width P + 1 - ncols kern. \<forall>k<channels P.
         pixel out i j ! k = astype_uint8 (maximum0 (word_product_sum P kern i j k)))"
proof -
  let ?H = "img_height P + 1 - nrows kern" and ?W = "img_width P + 1 - ncols kern"
  let ?c = "channels P" and ?cells = "cells3 P"
  let ?cast = "\<lambda>x. astype_uint8 (maximum0 x)"
  let ?sums = "map (\<lambda>i. map (conv_channels ?cells ?c kern i) [0..<?W]) [0..<?H]"
  let ?res = "map (map (map ?cast)) ?sums"
  let ?out = "if is_gray_scale P then Arr2 ?H ?W (map (map (\<lambda>p. p ! 0)) ?res) else Arr3 ?H ?W ?c ?res"
  have nd: "\<not> (?c = 0 \<or> img_width P < ncols kern \<or> img_height P < nrows kern)"
    using c hh ww by simp
  have n: "nat (int (img_height P) - int (nrows kern) + 1) = ?H"
    "nat (int (img_width P) - int (ncols kern) + 1) = ?W" by linarith+
  have eq: "convolve_padded (is_gray_scale P) (expand_dims_axis2 P) kern = Inr ?out"
    using nd by (simp add: expand_dims_axis2_eq conv_rows_eq Let_def n)
  have val: "?res ! i ! j ! k = ?cast (word_product_sum P kern i j k)"
    if "i < ?H" "j < ?W" "k < ?c" for i j k
  proof -
    have "?res ! i ! j ! k = ?cast (conv_channels ?cells ?c kern i j ! k)"
      using that by (simp add: conv_channels_def)
    also have "conv_channels ?cells ?c kern i j ! k = word_product_sum P kern i j k"
      using wfP wfk that by (intro conv_channels_nth) simp_all
    finally show ?thesis .
  qed
  have lenc: "length (conv_channels ?cells ?c kern i j) = ?c" for i j
    by (simp add: conv_channels_def)
  have wfo: "wf_ndarray ?out"
    by (cases "is_gray_scale P") (simp_all add: list_all_iff lenc)
  have sh: "shape ?out = [?H, ?W] @ drop 2 (shape P)"
    by (cases P) simp_all
  have px: "pixel ?out i j ! k = ?cast (word_product_sum P kern i j k)"
    if "i < ?H" "j < ?W" "k < ?c" for i j k
  proof (cases P)
    case (Arr2 h w rows)
    then have k0: "k = 0" using that by simp
    have "pixel ?out i j ! k = ?res ! i ! j ! 0"
      using Arr2 that k0 by simp
    then show ?thesis using val[OF that] k0 by simp
  next
    case (Arr3 h w c' rows)
    then have "pixel ?out i j = ?res ! i ! j" by simp
    then show ?thesis using val[OF that] by simp
  qed
  show ?thesis
  proof (intro exI[of _ ?out] conjI allI impI)
    show "convolve_padded (is_gray_scale P) (expand_dims_axis2 P) kern = Inr ?out" by (rule eq)
    show "wf_ndarray ?out" by (rule wfo)
    show "shape ?out = [?H, ?W] @ drop 2 (shape P)" by (rule sh)
  qed (rule px)
qed




lemma pad_img_Inr:
  assumes "pad_img img kern = Inr P"
  shows "0 < nrows kern" and "0 < ncols kern"
  using assms by (cases img; cases "nrows kern"; cases "ncols kern"; simp add: pad_img_def Let_def)+

lemma shape_Cons:
  "shape a = h # w # r \<Longrightarrow> img_height a = h \<and> img_width a = w"
  by (cases a) simp_all

lemma pad_img_wf:
  assumes "wf_ndarray img" and "pad_img img kern = Inr P"
  shows "wf_ndarray P"
    and "img_height P = (nrows kern - 1) div 2 + img_height img + (nrows kern - 1) div 2"
    and "img_width P = (ncols kern - 1) div 2 + img_width img + (ncols kern - 1) div 2"
    and "channels P = channels img"
    and "drop 2 (shape P) = drop 2 (shape img)"
proof -
  have k: "0 < nrows kern" "0 < ncols kern" using assms(2) by (rule pad_img_Inr)+
  obtain Q where Q: "pad_img img kern = Inr Q" "wf_ndarray Q"
    "shape Q = [(nrows kern - 1) div 2 + img_height img + (nrows kern - 1) div 2,
                (ncols kern - 1) div 2 + img_width img + (ncols kern - 1) div 2] @ drop 2 (shape img)"
    using pad_img_result [OF assms(1) k] by blast
  then have PQ: "P = Q" using assms(2) by simp
  show "wf_ndarray P" using Q PQ by simp
  have "shape P = ((nrows kern - 1) div 2 + img_height img + (nrows kern - 1) div 2) #
      ((ncols kern - 1) div 2 + img_width img + (ncols kern - 1) div 2) # drop 2 (shape img)"
    using Q(3) PQ by simp
  then have hw: "img_height P = (nrows kern - 1) div 2 + img_height img + (nrows kern - 1) div 2 \<and>
      img_width P = (ncols kern - 1) div 2 + img_width img + (ncols kern - 1) div 2"
    by (rule shape_Cons)
  show "img_height P = (nrows kern - 1) div 2 + img_height img + (nrows kern - 1) div 2"
    using hw by simp
  show "img_width P = (ncols kern - 1) div 2 + img_width img + (ncols kern - 1) div 2"
    using hw by simp
  show "drop 2 (shape P) = drop 2 (shape img)"
    using Q(3) PQ by simp
  then show "channels P = channels img"
    by (cases P; cases img) simp_all
qed


lemma convolve2D_returns:
  assumes wf: "wf_ndarray img" and wfk: "wf_matrix kern" and P: "pad_img img kern = Inr P"
    and nd: "0 < channels P" "nrows kern \<le> img_height P" "ncols kern \<le> img_width P"
  shows "\<exists>out. convolve2D img kern = Inr out \<and> wf_ndarray out \<and>
      shape out = [img_height P + 1 - nrows kern, img_width P + 1 - ncols kern] @ drop 2 (shape img) \<and>
      (\<forall>i<img_height P + 1 - nrows kern. \<forall>j<img_width P + 1 - ncols kern. \<forall>k<channels img.
         pixel out i j ! k = astype_uint8 (maximum0 (word_product_sum P kern i j k)))"
proof -
  have wfP: "wf_ndarray P" and c: "channels P = channels img"
    and d: "drop 2 (shape P) = drop 2 (shape img)"
    using pad_img_wf [OF wf P] by simp_all
  have "convolve2D img kern = convolve_padded (is_gray_scale P) (expand_dims_axis2 P) kern"
    using P by (simp add: convolve2D_via_pad)
  then show ?thesis
    using convolve_padded_spec [OF wfP wfk nd] c d by simp
qed





subsection \<open>The claims about pad_img and convolve2D\<close>

text \<open>
  C2.  For a rectangular image and a kernel with at least one row and one column, \<open>pad_img\<close>
  returns an array with \<open>(kernel.shape[0] - 1) div 2\<close> more rows above and below and
  \<open>(kernel.shape[1] - 1) div 2\<close> more columns left and right, the same number of
  dimensions and channels; every pixel of the border is zero in every channel, and the
  pixel at \<open>(i, j)\<close> of the image is found unchanged at \<open>(i + ph, j + pw)\<close>.
\<close>

theorem pad_img_zero_border:
  fixes img :: "'a::zero ndarray" and kern :: "'b matrix"
  assumes wf: "wf_ndarray img" and kh: "0 < nrows kern" and kw: "0 < ncols kern"
    and ph: "ph = (nrows kern - 1) div 2" and pw: "pw = (ncols kern - 1) div 2"
    and h: "h = img_height img" and w: "w = img_width img"
  shows "\<exists>P. pad_img img kern = Inr P \<and> wf_ndarray P \<and>
           shape P = [ph + h + ph, pw + w + pw] @ drop 2 (shape img) \<and>
           (\<forall>i<ph + h + ph. \<forall>j<pw + w + pw.
              pixel P i j =
                (if ph \<le> i \<and> i < ph + h \<and> pw \<le> j \<and> j < pw + w
                 then pixel img (i - ph) (j - pw)
                 else replicate (channels img) 0))"
proof (cases img)
  case (Arr2 h' w' rows)
  with wf h w have len: "length rows = h" and rw: "list_all (\<lambda>r. length r = w) rows"
    by simp_all
  let ?P = "Arr2 (ph + h + ph) (pw + w + pw) (pad_cells ph pw w 0 rows)"
  have eq: "pad_img img kern = Inr ?P"
    using Arr2 h w kh kw by (simp add: pad_img_def Let_def pad_amount_nat ph pw)
  have wfP: "wf_ndarray ?P"
    using rw len by (simp add: length_pad_cells pad_cells_row_length)
  have sh: "shape ?P = [ph + h + ph, pw + w + pw] @ drop 2 (shape img)"
    using Arr2 by simp
  have px: "pixel ?P i j =
                (if ph \<le> i \<and> i < ph + h \<and> pw \<le> j \<and> j < pw + w
                 then pixel img (i - ph) (j - pw)
                 else replicate (channels img) 0)"
    if "i < ph + h + ph" "j < pw + w + pw" for i j
  proof -
    have "pad_cells ph pw w 0 rows ! i ! j =
           (if ph \<le> i \<and> i < ph + length rows \<and> pw \<le> j \<and> j < pw + w
            then rows ! (i - ph) ! (j - pw) else 0)"
      using rw that len by (intro pad_cells_nth) simp_all
    then show ?thesis using Arr2 len by simp
  qed
  show ?thesis
  proof (intro exI[of _ ?P] conjI allI impI)
    show "pad_img img kern = Inr ?P" by (rule eq)
    show "wf_ndarray ?P" by (rule wfP)
    show "shape ?P = [ph + h + ph, pw + w + pw] @ drop 2 (shape img)" by (rule sh)
  qed (rule px)
next
  case (Arr3 h' w' c rows)
  with wf h w have len: "length rows = h"
    and rw: "list_all (\<lambda>r. length r = w \<and> list_all (\<lambda>p. length p = c) r) rows"
    by simp_all
  then have rw': "list_all (\<lambda>r. length r = w) rows"
    by (simp add: list_all_iff)
  let ?P = "Arr3 (ph + h + ph) (pw + w + pw) c (pad_cells ph pw w (replicate c 0) rows)"
  have eq: "pad_img img kern = Inr ?P"
    using Arr3 h w kh kw by (simp add: pad_img_def Let_def pad_amount_nat ph pw)
  have wfP: "wf_ndarray ?P"
    using rw len by (simp add: length_pad_cells pad_cells_pixel_length)
  have sh: "shape ?P = [ph + h + ph, pw + w + pw] @ drop 2 (shape img)"
    using Arr3 by simp
  have px: "pixel ?P i j =
                (if ph \<le> i \<and> i < ph + h \<and> pw \<le> j \<and> j < pw + w
                 then pixel img (i - ph) (j - pw)
                 else replicate (channels img) 0)"
    if "i < ph + h + ph" "j < pw + w + pw" for i j
  proof -
    have "pad_cells ph pw w (replicate c 0) rows ! i ! j =
           (if ph \<le> i \<and> i < ph + length rows \<and> pw \<le> j \<and> j < pw + w
            then rows ! (i - ph) ! (j - pw) else replicate c 0)"
      using rw' that len by (intro pad_cells_nth) simp_all
    then show ?thesis using Arr3 len by simp
  qed
  show ?thesis
  proof (intro exI[of _ ?P] conjI allI impI)
    show "pad_img img kern = Inr ?P" by (rule eq)
    show "wf_ndarray ?P" by (rule wfP)
    show "shape ?P = [ph + h + ph, pw + w + pw] @ drop 2 (shape img)" by (rule sh)
  qed (rule px)
qed

text \<open>A 1 x 2 image under a 3 x 5 kernel: one row more on each side, two columns more.\<close>

theorem pad_img_zero_border_witness:
  "wf_ndarray (Arr2 1 2 [[7, 9 :: int]]) \<and>
   0 < nrows (Matrix 3 5 (replicate 3 (replicate 5 (1 :: int)))) \<and>
   0 < ncols (Matrix 3 5 (replicate 3 (replicate 5 (1 :: int)))) \<and>
   (\<exists>P. pad_img (Arr2 1 2 [[7, 9 :: int]]) (Matrix 3 5 (replicate 3 (replicate 5 (1 :: int)))) = Inr P \<and>
      shape P = [3, 6] \<and> pixel P 1 2 = [7] \<and> pixel P 1 3 = [9] \<and> pixel P 0 2 = [0] \<and> pixel P 1 4 = [0])"
proof -
  let ?I = "Arr2 1 2 [[7, 9 :: int]]" and ?K = "Matrix 3 5 (replicate 3 (replicate 5 (1 :: int)))"
  have h: "wf_ndarray ?I" "0 < nrows ?K" "0 < ncols ?K"
    "(1::nat) = (nrows ?K - 1) div 2" "(2::nat) = (ncols ?K - 1) div 2"
    "(1::nat) = img_height ?I" "(2::nat) = img_width ?I"
    by simp_all
  obtain P where P: "pad_img ?I ?K = Inr P"
    "shape P = [1 + 1 + 1, 2 + 2 + 2] @ drop 2 (shape ?I)"
    "\<forall>i<1 + 1 + 1. \<forall>j<2 + 2 + 2.
              pixel P i j =
                (if 1 \<le> i \<and> i < 1 + 1 \<and> 2 \<le> j \<and> j < 2 + 2
                 then pixel ?I (i - 1) (j - 2)
                 else replicate (channels ?I) 0)"
    using pad_img_zero_border [OF h] by blast
  have "pixel P 1 2 = [7]" "pixel P 1 3 = [9]" "pixel P 0 2 = [0]" "pixel P 1 4 = [0]"
    using P(3) by simp_all
  moreover have "shape P = [3, 6]" using P(2) by simp
  ultimately show ?thesis using h P(1) by blast
qed

text \<open>
  A kernel without rows gives the pad width \<open>(0 - 1) // 2 = -1\<close>, which \<open>np.pad\<close> refuses:
  nothing is added and nothing returned.  Under a kernel of even size the number
  \<open>(kernel_size - 1) / 2\<close> is not whole and the code pads by it rounded down: a 2 x 2
  kernel adds no row and no column.
\<close>

theorem pad_img_kernel_counterexample:
  "wf_ndarray (Arr2 1 1 [[7 :: int]]) \<and> wf_matrix (Matrix 0 0 ([] :: int list list)) \<and>
   pad_img (Arr2 1 1 [[7 :: int]]) (Matrix 0 0 ([] :: int list list)) = Inl ValueError \<and>
   wf_matrix (Matrix 2 2 [[1, 1], [1, 1 :: int]]) \<and>
   pad_img (Arr2 1 1 [[7 :: int]]) (Matrix 2 2 [[1, 1], [1, 1 :: int]]) = Inr (Arr2 1 1 [[7]]) \<and>
   (of_nat (nrows (Matrix 2 2 [[1, 1], [1, 1 :: int]])) - 1) / 2 = (1 / 2 :: rat)"
  by (simp add: pad_img_def pad_cells_def)










text \<open>
  C9.  For an image with at least one row, one column and one channel and a kernel of odd
  height and odd width, \<open>convolve2D\<close> returns an array of the shape of the image: the same
  height and width, two-dimensional for a two-dimensional image, and with the same number
  of channels for a three-dimensional one.
\<close>

theorem convolve2D_same_shape:
  assumes "wf_ndarray img" and "wf_matrix kern"
    and "odd (nrows kern)" and "odd (ncols kern)"
    and "0 < img_height img" and "0 < img_width img" and "0 < channels img"
  shows "\<exists>out. convolve2D img kern = Inr out \<and> wf_ndarray out \<and> shape out = shape img"
proof -
  have kh: "0 < nrows kern" and kw: "0 < ncols kern"
    using assms(3,4) by (auto intro: Nat.gr0I)
  obtain P where P: "pad_img img kern = Inr P"
    using pad_img_result [OF assms(1) kh kw] by blast
  note f = pad_img_wf [OF assms(1) P]
  have e1: "(nrows kern - 1) div 2 + (nrows kern - 1) div 2 + 1 = nrows kern"
    using assms(3) by (elim oddE) simp
  have e2: "(ncols kern - 1) div 2 + (ncols kern - 1) div 2 + 1 = ncols kern"
    using assms(4) by (elim oddE) simp
  have hP: "img_height P + 1 - nrows kern = img_height img" using f(2) e1 by linarith
  have wP: "img_width P + 1 - ncols kern = img_width img" using f(3) e2 by linarith
  have nd: "0 < channels P" "nrows kern \<le> img_height P" "ncols kern \<le> img_width P"
    using f(2,3,4) e1 e2 assms(5,6,7) by linarith+
  have sh: "[img_height img, img_width img] @ drop 2 (shape img) = shape img"
    by (cases img) simp_all
  show ?thesis
    using convolve2D_returns [OF assms(1,2) P nd] hP wP sh by auto
qed

theorem convolve2D_same_shape_witness:
  "wf_ndarray (Arr2 1 1 [[52 :: uint8]]) \<and> wf_matrix sharpen \<and>
   odd (nrows sharpen) \<and> odd (ncols sharpen) \<and>
   0 < img_height (Arr2 1 1 [[52 :: uint8]]) \<and> 0 < img_width (Arr2 1 1 [[52 :: uint8]]) \<and>
   0 < channels (Arr2 1 1 [[52 :: uint8]]) \<and>
   (\<exists>out. convolve2D (Arr2 1 1 [[52]]) sharpen = Inr out \<and> wf_ndarray out \<and>
      shape out = shape (Arr2 1 1 [[52 :: uint8]]))"
proof -
  let ?I = "Arr2 1 1 [[52 :: uint8]]"
  have h: "wf_ndarray ?I" "wf_matrix sharpen" "odd (nrows sharpen)" "odd (ncols sharpen)"
    "0 < img_height ?I" "0 < img_width ?I" "0 < channels ?I"
    by (simp_all add: sharpen_def)
  show ?thesis using h convolve2D_same_shape [OF h] by blast
qed

text \<open>
  On an image without rows the loop over the rows appends nothing and
  \<open>np.concatenate(new_img, axis=0)\<close> raises ValueError, so no array of the shape of the
  image is returned.
\<close>

theorem convolve2D_empty_image_counterexample:
  "wf_ndarray (Arr2 0 0 ([] :: uint8 list list)) \<and> wf_matrix sharpen \<and>
   odd (nrows sharpen) \<and> odd (ncols sharpen) \<and>
   convolve2D (Arr2 0 0 []) sharpen = Inl ValueError"
  by (simp add: sharpen_def convolve2D_def pad_img_def pad_cells_def conv_rows_def Let_def)







section \<open>Properties of one_hot\<close>

lemma take_indices_in_range:
  assumes "\<forall>j\<in>set js. 0 \<le> j \<and> j < int (length a)"
  shows "take_indices a js = Inr (map (\<lambda>j. a ! nat j) js)"
proof -
  have "map (\<lambda>j. case np_index (length a) j of Inl e \<Rightarrow> Inl e | Inr i \<Rightarrow> Inr (a ! i)) js
      = map (\<lambda>j. Inr (a ! nat j)) js"
    using assms by (intro map_cong refl) (simp add: np_index_def)
  then show ?thesis unfolding take_indices_def by (simp only: collect_map_Inr)
qed

lemma np_max_eq: "y \<noteq> [] \<Longrightarrow> np_max y = Inr (Max (set y))"
proof (cases y)
  case Nil
  assume "y \<noteq> []"
  with Nil show ?thesis by simp
next
  case (Cons x xs)
  have "Max (set (x # xs)) = fold max xs x" by (rule Max.set_eq_fold)
  then show ?thesis unfolding Cons by (simp only: np_max.simps)
qed

lemma sum_list_indicator:
  assumes "a < n"
  shows "sum_list (map (\<lambda>j. if a = j then 1 else 0) [0..<n]) = (1 :: rat)"
proof -
  have "sum_list (map (\<lambda>j. if a = j then 1 else 0) [0..<n]) = (\<Sum>j\<in>{0..<n}. if a = j then 1 else (0::rat))"
    by (simp add: interv_sum_list_conv_sum_set_nat)
  also have "\<dots> = 1" using assms by simp
  finally show ?thesis .
qed

lemma one_hot_result:
  assumes ne: "y \<noteq> []" and nn: "\<forall>v\<in>set y. 0 \<le> v"
  shows "one_hot y = Inr (map (\<lambda>v. map (\<lambda>j. if nat v = j then 1 else 0) [0..<nat (Max (set y)) + 1]) y)"
proof -
  let ?m = "Max (set y)" and ?n = "nat (Max (set y)) + 1"
  have "hd y \<in> set y" using ne by simp
  then have "0 \<le> hd y" "hd y \<le> ?m" using nn by simp_all
  then have m0: "0 \<le> ?m" by linarith
  then have n: "nat (?m + 1) = ?n" by simp
  let ?eye = "map (\<lambda>i. map (\<lambda>j. if i = j then 1 else (0::rat)) [0..<?n]) [0..<?n]"
  have eye: "np_eye (?m + 1) = Inr ?eye" using m0 by (simp add: np_eye_def n)
  have len: "length ?eye = ?n" by simp
  have bnd: "0 \<le> v \<and> nat v < ?n" if "v \<in> set y" for v
  proof -
    have "v \<le> ?m" using that by simp
    moreover have "0 \<le> v" using nn that by simp
    ultimately show ?thesis by linarith
  qed
  have rng: "\<forall>v\<in>set y. 0 \<le> v \<and> v < int (length ?eye)"
  proof
    fix v assume "v \<in> set y"
    from bnd [OF this] show "0 \<le> v \<and> v < int (length ?eye)"
      unfolding len by linarith
  qed
  have "take_indices ?eye y = Inr (map (\<lambda>v. ?eye ! nat v) y)"
    using rng by (rule take_indices_in_range)
  also have "map (\<lambda>v. ?eye ! nat v) y = map (\<lambda>v. map (\<lambda>j. if nat v = j then 1 else 0) [0..<?n]) y"
  proof (intro map_cong refl)
    fix v assume "v \<in> set y"
    from bnd [OF this] have "nat v < ?n" by simp
    then show "?eye ! nat v = map (\<lambda>j. if nat v = j then 1 else 0) [0..<?n]"
      by (simp del: upt_Suc)
  qed
  finally show ?thesis using ne eye by (simp add: one_hot_def np_max_eq)
qed

text \<open>
  C4.  For a non-empty vector \<open>y\<close> of nonnegative integer labels \<open>one_hot\<close> returns a
  matrix with one row per element of \<open>y\<close> and \<open>max(y) + 1\<close> columns; row \<open>i\<close> has 1
  at column \<open>y[i]\<close> and 0 at every other column, and it sums to 1.
\<close>

theorem one_hot_rows:
  assumes "y \<noteq> []" and "\<forall>v\<in>set y. 0 \<le> v"
  shows "\<exists>M. one_hot y = Inr M \<and> length M = length y \<and>
     (\<forall>i<length y. length (M ! i) = nat (Max (set y)) + 1 \<and>
        (\<forall>j<nat (Max (set y)) + 1. M ! i ! j = (if int j = y ! i then 1 else 0)) \<and>
        sum_list (M ! i) = 1)"
proof -
  let ?n = "nat (Max (set y)) + 1"
  let ?M = "map (\<lambda>v. map (\<lambda>j. if nat v = j then 1 else (0::rat)) [0..<?n]) y"
  have r: "length (?M ! i) = ?n \<and>
        (\<forall>j<?n. ?M ! i ! j = (if int j = y ! i then 1 else 0)) \<and> sum_list (?M ! i) = 1"
    if i: "i < length y" for i
  proof -
    have v: "0 \<le> y ! i" "y ! i \<le> Max (set y)" using assms i by simp_all
    then have lt: "nat (y ! i) < ?n" by linarith
    have row: "?M ! i = map (\<lambda>j. if nat (y ! i) = j then 1 else 0) [0..<?n]"
      using i by simp
    have e: "?M ! i ! j = (if int j = y ! i then 1 else 0)" if "j < ?n" for j
    proof -
      have "(nat (y ! i) = j) = (int j = y ! i)" using v by linarith
      then show ?thesis using that row by (simp del: upt_Suc)
    qed
    have "sum_list (?M ! i) = 1" unfolding row using lt by (rule sum_list_indicator)
    then show ?thesis using e row by (simp del: upt_Suc)
  qed
  show ?thesis
    using one_hot_result [OF assms] r by (intro exI[of _ ?M]) simp
qed

text \<open>On the empty vector \<open>np.max\<close> raises ValueError and no matrix is returned.\<close>

theorem one_hot_empty_counterexample: "one_hot [] = Inl ValueError"
  by (simp add: one_hot_def)

text \<open>The labels 2 and 0 give two rows of three columns.\<close>

theorem one_hot_rows_witness:
  "[2, 0 :: int] \<noteq> [] \<and> 0 \<le> (2::int) \<and> 0 \<le> (0::int) \<and>
   (\<exists>M. one_hot [2, 0] = Inr M \<and> length M = 2 \<and> length (M ! 0) = 3 \<and>
      M ! 0 ! 2 = 1 \<and> M ! 0 ! 0 = 0 \<and> M ! 1 ! 0 = 1 \<and> sum_list (M ! 1) = 1)"
proof -
  have h: "[2, 0 :: int] \<noteq> []" "\<forall>v\<in>set [2, 0 :: int]. 0 \<le> v" by simp_all
  have m: "nat (Max (set [2, 0 :: int])) + 1 = 3" by simp
  obtain M where M: "one_hot [2, 0] = Inr M" "length M = length [2, 0 :: int]"
    "\<forall>i<length [2, 0 :: int]. length (M ! i) = 3 \<and>
        (\<forall>j<3. M ! i ! j = (if int j = [2, 0] ! i then 1 else 0)) \<and> sum_list (M ! i) = 1"
    using one_hot_rows [OF h] unfolding m by blast
  have "length (M ! 0) = 3" "M ! 0 ! 2 = 1" "M ! 0 ! 0 = 0" "M ! 1 ! 0 = 1" "sum_list (M ! 1) = 1"
    using M(3) by simp_all
  then show ?thesis using M(1,2) by auto
qed


section \<open>Properties of train_test_split\<close>

subsection \<open>The rounding\<close>

text \<open>
  \<open>binary_exponent\<close> is the exponent of its argument, and \<open>float_round\<close> is a rounding to
  the nearest double: the result is a multiple of the unit in the last place that differs
  from the argument by at most half that unit, it stays below every double that the
  argument is below, it leaves the integers up to \<open>2 ^ 53\<close> as they are, and it is an
  infinity from \<open>2 ^ 1024\<close> on.
\<close>

lemma bit_length_pos: "0 < p \<Longrightarrow> 0 < bit_length p"
proof (induction p rule: bit_length.induct)
  case (1 p)
  show ?case
  proof (cases "0 < p div 2")
    case True
    then have "0 < bit_length (p div 2)" using "1.IH" "1.prems" by simp
    then show ?thesis using "1.prems" by (subst bit_length.simps) simp
  next
    case False
    then have "bit_length (p div 2) = 0" by (subst bit_length.simps) simp
    then show ?thesis using "1.prems" by (subst bit_length.simps) simp
  qed
qed

lemma bit_length_bounds:
  "0 < p \<Longrightarrow> 2 ^ nat (bit_length p - 1) \<le> p \<and> p < 2 ^ nat (bit_length p)"
proof (induction p rule: bit_length.induct)
  case (1 p)
  have bl: "bit_length p = bit_length (p div 2) + 1"
    using "1.prems" by (subst bit_length.simps) simp
  show ?case
  proof (cases "0 < p div 2")
    case True
    then have ih: "2 ^ nat (bit_length (p div 2) - 1) \<le> p div 2" "p div 2 < 2 ^ nat (bit_length (p div 2))"
      using "1.IH" "1.prems" by simp_all
    have pos: "0 < bit_length (p div 2)" using True by (rule bit_length_pos)
    then have n: "nat (bit_length (p div 2)) = Suc (nat (bit_length (p div 2) - 1))" by simp
    have "2 * 2 ^ nat (bit_length (p div 2) - 1) \<le> 2 * (p div 2)" using ih(1) by simp
    also have "\<dots> \<le> p" by simp
    finally have lo: "2 ^ nat (bit_length p - 1) \<le> p" unfolding bl using n by simp
    have "p < 2 * (p div 2) + 2" by linarith
    also have "\<dots> \<le> 2 * 2 ^ nat (bit_length (p div 2))" using ih(2) by simp
    finally have hi: "p < 2 ^ nat (bit_length p)" unfolding bl using pos by (simp add: nat_add_distrib)
    show ?thesis using lo hi by simp
  next
    case False
    then have p1: "p = 1" using "1.prems" by linarith
    have "bit_length (p div 2) = 0" using False by (subst bit_length.simps) simp
    then show ?thesis unfolding bl using p1 by simp
  qed
qed


lemma bit_length_powi:
  assumes "0 < p"
  shows "2 powi (bit_length p - 1) \<le> (of_int p :: rat)" and "(of_int p :: rat) < 2 powi (bit_length p)"
proof -
  have pos: "0 < bit_length p" using assms by (rule bit_length_pos)
  have b: "2 ^ nat (bit_length p - 1) \<le> p" "p < 2 ^ nat (bit_length p)"
    using bit_length_bounds [OF assms] by simp_all
  have "(of_int (2 ^ nat (bit_length p - 1)) :: rat) \<le> of_int p" using b(1) by (simp only: of_int_le_iff)
  then show "2 powi (bit_length p - 1) \<le> (of_int p :: rat)"
    using pos by (simp add: power_int_def)
  have "(of_int p :: rat) < of_int (2 ^ nat (bit_length p))" using b(2) by (simp only: of_int_less_iff)
  then show "(of_int p :: rat) < 2 powi (bit_length p)"
    using pos by (simp add: power_int_def)
qed

lemma binary_exponent_bounds:
  assumes "0 < x"
  shows "2 powi (binary_exponent x) \<le> x" and "x < 2 powi (binary_exponent x + 1)"
proof -
  obtain p q where pq: "quotient_of x = (p, q)" by (cases "quotient_of x")
  then have q: "0 < q" by (rule quotient_of_denom_pos)
  have x: "x = of_int p / of_int q" using pq by (rule quotient_of_div)
  have p: "0 < p" using assms q x by (simp add: zero_less_divide_iff)
  let ?d = "bit_length p - bit_length q"
  note bp = bit_length_powi [OF p] and bq = bit_length_powi [OF q]
  have Q: "(0 :: rat) < of_int q" using q by simp
  have lo: "2 powi (?d - 1) \<le> x"
  proof -
    have "2 powi (?d - 1) * (of_int q :: rat) \<le> 2 powi (?d - 1) * 2 powi (bit_length q)"
      using bq(2) by (intro mult_left_mono) simp_all
    also have "\<dots> = 2 powi (bit_length p - 1)"
      by (simp add: power_int_add [symmetric])
    also have "\<dots> \<le> of_int p" by (rule bp(1))
    finally show ?thesis unfolding x using Q by (simp add: pos_le_divide_eq)
  qed
  have hi: "x < 2 powi (?d + 1)"
  proof -
    have "(of_int p :: rat) < 2 powi (bit_length p)" by (rule bp(2))
    also have "\<dots> = 2 powi (?d + 1) * 2 powi (bit_length q - 1)"
      by (simp add: power_int_add [symmetric])
    also have "\<dots> \<le> 2 powi (?d + 1) * of_int q"
      using bq(1) by (intro mult_left_mono) simp_all
    finally show ?thesis unfolding x using Q by (simp add: pos_divide_less_eq)
  qed
  have e: "binary_exponent x = (if 2 powi ?d \<le> x then ?d else ?d - 1)"
    using pq by (simp add: binary_exponent_def)
  show "2 powi (binary_exponent x) \<le> x" using e lo by simp
  show "x < 2 powi (binary_exponent x + 1)" using e hi by (auto simp add: not_le)
qed


lemma round_half_even_near: "\<bar>of_int (round_half_even q) - q\<bar> \<le> 1 / 2"
proof -
  have "of_int \<lfloor>q\<rfloor> \<le> q" "q < of_int \<lfloor>q\<rfloor> + 1" by linarith+
  then show ?thesis by (auto simp add: round_half_even_def Let_def abs_le_iff)
qed

lemma round_half_even_mono:
  assumes "of_int k \<le> q"
  shows "k \<le> round_half_even q"
proof -
  have "k \<le> \<lfloor>q\<rfloor>" using assms by (simp add: le_floor_iff)
  then show ?thesis by (auto simp add: round_half_even_def Let_def)
qed

lemma round_half_even_upper:
  assumes "q \<le> of_int k"
  shows "round_half_even q \<le> k"
proof (cases "q = of_int k")
  case True
  then show ?thesis by (simp add: round_half_even_def Let_def)
next
  case False
  then have "q < of_int k" using assms by simp
  then have "\<lfloor>q\<rfloor> < k" by (simp add: floor_less_iff)
  then show ?thesis by (auto simp add: round_half_even_def Let_def)
qed

lemma round_half_even_int: "round_half_even (of_int k) = k"
  by (simp add: round_half_even_def)

lemma round_half_even_nonneg: "0 \<le> q \<Longrightarrow> 0 \<le> round_half_even q"
  using round_half_even_mono [of 0 q] by simp

lemma ulp_pos: "0 < ulp a"
  by (simp add: ulp_def)

lemma powi_less_exp:
  assumes "(2 :: rat) powi a < 2 powi b"
  shows "a < b"
proof (rule ccontr)
  assume "\<not> a < b"
  then have "b \<le> a" by simp
  then have "(2 :: rat) powi b \<le> 2 powi a" by (rule power_int_increasing) simp
  then show False using assms by simp
qed

lemma binary_exponent_less:
  assumes "0 < x" and "x < 2 powi j"
  shows "binary_exponent x < j"
proof -
  have "2 powi (binary_exponent x) \<le> x" using assms(1) by (rule binary_exponent_bounds)
  then have "(2 :: rat) powi (binary_exponent x) < 2 powi j" using assms(2) by simp
  then show ?thesis by (rule powi_less_exp)
qed

lemma binary_exponent_mono:
  assumes "0 < x" and "x \<le> y"
  shows "binary_exponent x \<le> binary_exponent y"
proof -
  have y: "0 < y" using assms by simp
  have "x < 2 powi (binary_exponent y + 1)"
    using binary_exponent_bounds(2) [OF y] assms(2) by simp
  then have "binary_exponent x < binary_exponent y + 1"
    using assms(1) by (intro binary_exponent_less)
  then show ?thesis by simp
qed

lemma ulp_mono:
  assumes "0 < x" and "x \<le> y"
  shows "\<exists>n. ulp y = 2 ^ n * ulp x"
proof -
  let ?a = "max (binary_exponent x) (- 1022) - 52" and ?b = "max (binary_exponent y) (- 1022) - 52"
  have le: "?a \<le> ?b" using binary_exponent_mono [OF assms] by simp
  have "(2 :: rat) powi ?b = 2 powi ((?b - ?a) + ?a)" by simp
  also have "\<dots> = 2 powi (?b - ?a) * 2 powi ?a" by (rule power_int_add) simp
  also have "(2 :: rat) powi (?b - ?a) = 2 ^ nat (?b - ?a)" using le by (simp add: power_int_def)
  finally show ?thesis unfolding ulp_def by blast
qed

lemma float_round_pos:
  assumes "0 < x"
  shows "float_round x =
     (if 2 powi 1024 \<le> of_int (round_half_even (x / ulp x)) * ulp x then PosInf
      else Finite (of_int (round_half_even (x / ulp x)) * ulp x))"
  using assms by (simp add: float_round_def Let_def)

lemma float_round_Finite_pos:
  assumes "0 < x" and "float_round x = Finite r"
  shows "r = of_int (round_half_even (x / ulp x)) * ulp x" and "r < 2 powi 1024"
  using assms(2) unfolding float_round_pos [OF assms(1)] by (auto split: if_splits)

lemma scaled_round_le:
  assumes u: "(0 :: rat) < u" and N: "N = of_int m * (2 ^ n * u)" and le: "x \<le> N"
  shows "of_int (round_half_even (x / u)) * u \<le> N"
proof -
  have "N / u = of_int (m * 2 ^ n)" unfolding N using u by simp
  moreover have "x / u \<le> N / u" using le u by (simp add: divide_right_mono)
  ultimately have "x / u \<le> of_int (m * 2 ^ n)" by simp
  then have "round_half_even (x / u) \<le> m * 2 ^ n" by (rule round_half_even_upper)
  then have "(of_int (round_half_even (x / u)) :: rat) \<le> of_int (m * 2 ^ n)"
    by (simp only: of_int_le_iff)
  then have "of_int (round_half_even (x / u)) * u \<le> of_int (m * 2 ^ n) * u"
    using u by (intro mult_right_mono) simp_all
  also have "\<dots> = N" unfolding N by simp
  finally show ?thesis .
qed

lemma float_round_le:
  assumes x: "0 < x" and le: "x \<le> N" and N: "float_round N = Finite N"
  shows "\<exists>r. float_round x = Finite r \<and> 0 \<le> r \<and> r \<le> N"
proof -
  have N0: "0 < N" using x le by simp
  define m where "m = round_half_even (N / ulp N)"
  define r where "r = of_int (round_half_even (x / ulp x)) * ulp x"
  have fN: "N = of_int m * ulp N" "N < 2 powi 1024"
    using float_round_Finite_pos [OF N0 N] unfolding m_def by blast+
  obtain n where n: "ulp N = 2 ^ n * ulp x" using ulp_mono [OF x le] by blast
  have ux: "0 < ulp x" by (rule ulp_pos)
  have Nm: "N = of_int m * (2 ^ n * ulp x)" using fN(1) unfolding n .
  have rN: "r \<le> N" unfolding r_def using ux Nm le by (rule scaled_round_le)
  have "0 \<le> x / ulp x" using x ux by simp
  then have "0 \<le> round_half_even (x / ulp x)" by (rule round_half_even_nonneg)
  then have r0: "0 \<le> r" unfolding r_def using ux by simp
  have "r < 2 powi 1024" using rN fN(2) by simp
  then have "float_round x = Finite r"
    unfolding float_round_pos [OF x] r_def by simp
  then show ?thesis using rN r0 by blast
qed

lemma scaled_round_near:
  assumes u: "(0 :: rat) < u"
  shows "\<bar>of_int (round_half_even (x / u)) * u - x\<bar> \<le> u / 2"
proof -
  have "of_int (round_half_even (x / u)) * u - x = (of_int (round_half_even (x / u)) - x / u) * u"
    using u by (simp add: algebra_simps)
  then have "\<bar>of_int (round_half_even (x / u)) * u - x\<bar> = \<bar>of_int (round_half_even (x / u)) - x / u\<bar> * u"
    using u by (simp add: abs_mult)
  also have "\<dots> \<le> (1 / 2) * u"
    using round_half_even_near [of "x / u"] u by (intro mult_right_mono) simp_all
  finally show ?thesis by simp
qed

lemma float_round_error:
  assumes x: "0 < x" and lt: "x < 2 powi j" and j: "- 1021 \<le> j" and r: "float_round x = Finite r"
  shows "\<bar>r - x\<bar> \<le> 2 powi (j - 54)"
proof -
  have ux: "0 < ulp x" by (rule ulp_pos)
  have rm: "r = of_int (round_half_even (x / ulp x)) * ulp x"
    using float_round_Finite_pos(1) [OF x r] .
  have e: "\<bar>r - x\<bar> \<le> ulp x / 2" unfolding rm using ux by (rule scaled_round_near)
  have "binary_exponent x < j" using x lt by (rule binary_exponent_less)
  then have "max (binary_exponent x) (- 1022) - 52 \<le> j - 53" using j by simp
  then have up: "ulp x \<le> 2 powi (j - 53)" unfolding ulp_def by (rule power_int_increasing) simp
  have "j - 53 = (j - 54) + 1" by simp
  then have "(2 :: rat) powi (j - 53) = 2 powi ((j - 54) + 1)" by (rule arg_cong)
  also have "\<dots> = 2 powi (j - 54) * 2" by (rule power_int_add_1) simp
  finally have eq: "(2 :: rat) powi (j - 53) = 2 powi (j - 54) * 2" .
  have "ulp x / 2 \<le> 2 powi (j - 53) / 2" using up by (rule divide_right_mono) simp
  then have "ulp x / 2 \<le> 2 powi (j - 54)" unfolding eq by simp
  then show ?thesis using e by simp
qed

lemma scaled_round_exact:
  assumes u: "(0 :: rat) < u" and k: "x = of_int k * u"
  shows "of_int (round_half_even (x / u)) * u = x"
proof -
  have "x / u = of_int k" unfolding k using u by simp
  then show ?thesis unfolding k by (simp add: round_half_even_int)
qed

lemma float_round_exact:
  assumes x: "0 < x" and k: "x = of_int k * ulp x" and lt: "x < 2 powi 1024"
  shows "float_round x = Finite x"
proof -
  have "of_int (round_half_even (x / ulp x)) * ulp x = x"
    using ulp_pos k by (rule scaled_round_exact)
  then show ?thesis unfolding float_round_pos [OF x] using lt by simp
qed

lemma float_round_nat:
  assumes "n \<le> 2 ^ 53"
  shows "float_round (of_nat n) = Finite (of_nat n)"
proof (cases "n = 0")
  case True
  then show ?thesis by (simp add: float_round_def)
next
  case False
  define x :: rat where "x = of_nat n"
  define e where "e = binary_exponent x"
  have x: "0 < x" using False by (simp add: x_def)
  have x1: "1 \<le> x" using False by (simp add: x_def Suc_leI)
  have "(of_nat n :: rat) \<le> of_nat (2 ^ 53)" using assms by (simp only: of_nat_le_iff)
  then have xu: "x \<le> 2 ^ 53" by (simp add: x_def)
  have b: "2 powi e \<le> x" "x < 2 powi (e + 1)"
    using binary_exponent_bounds [OF x] by (simp_all add: e_def)
  have "(2 :: rat) powi 0 < 2 powi (e + 1)" using x1 b(2) by simp
  then have "0 < e + 1" by (rule powi_less_exp)
  then have e0: "0 \<le> e" by simp
  have "(2 :: rat) powi e < 2 powi 54" using b(1) xu by simp
  then have "e < 54" by (rule powi_less_exp)
  then have e53: "e \<le> 53" by simp
  have u: "ulp x = 2 powi (e - 52)" using e0 by (simp add: ulp_def max_def e_def)
  have "\<exists>k. x = of_int k * ulp x"
  proof (cases "e \<le> 52")
    case True
    have "(2 :: rat) powi (e - 52) = 2 powi (- (52 - e))" by simp
    also have "\<dots> = inverse (2 powi (52 - e))" by (rule power_int_minus)
    also have "(2 :: rat) powi (52 - e) = 2 ^ nat (52 - e)" using True by (simp add: power_int_def)
    finally have "ulp x = inverse (2 ^ nat (52 - e))" unfolding u .
    then have "x = of_int (int n * 2 ^ nat (52 - e)) * ulp x"
      by (simp add: x_def)
    then show ?thesis by blast
  next
    case False
    then have e: "e = 53" using e53 by simp
    have "(2 :: rat) ^ 53 \<le> x" using b(1) unfolding e by simp
    then have "x = 2 ^ 53" using xu by simp
    moreover have "ulp x = 2" unfolding u e by simp
    ultimately have "x = of_int (2 ^ 52) * ulp x" by simp
    then show ?thesis by blast
  qed
  then obtain k where k: "x = of_int k * ulp x" by blast
  have "x < 2 powi 1024" using xu by simp
  then have "float_round x = Finite x" using float_round_exact [OF x k] by simp
  then show ?thesis by (simp add: x_def)
qed

lemma float_round_one: "float_round 1 = Finite 1"
  by code_simp

lemma float_round_two_63: "float_round (2 ^ 63) = Finite (2 ^ 63)"
  by code_simp

lemma scaled_round_ge:
  assumes u: "(0 :: rat) < u" and L: "of_int m * u \<le> x"
  shows "of_int m * u \<le> of_int (round_half_even (x / u)) * u"
proof -
  have "of_int m \<le> x / u" using L u by (simp add: pos_le_divide_eq)
  then have "m \<le> round_half_even (x / u)" by (rule round_half_even_mono)
  then have "(of_int m :: rat) \<le> of_int (round_half_even (x / u))" by (simp only: of_int_le_iff)
  then show ?thesis using u by (intro mult_right_mono) simp_all
qed

lemma float_round_lower:
  assumes le: "2 powi j \<le> x" and j: "- 1022 \<le> j"
  shows "2 powi j \<le> of_int (round_half_even (x / ulp x)) * ulp x"
proof -
  define e where "e = binary_exponent x"
  have x: "0 < x" by (rule less_le_trans [OF _ le]) simp
  have b: "2 powi e \<le> x" "x < 2 powi (e + 1)"
    using binary_exponent_bounds [OF x] by (simp_all add: e_def)
  have "(2 :: rat) powi j < 2 powi (e + 1)" using le b(2) by simp
  then have "j < e + 1" by (rule powi_less_exp)
  then have je: "j \<le> e" by simp
  then have m: "max (binary_exponent x) (- 1022) = e" using j by (simp add: e_def)
  have u: "ulp x = 2 powi (e - 52)" unfolding ulp_def m ..
  have "(2 :: rat) powi (52 + (e - 52)) = 2 powi 52 * 2 powi (e - 52)"
    by (rule power_int_add) simp
  then have pe: "(2 :: rat) powi e = of_int (2 ^ 52) * ulp x" unfolding u by simp
  have "of_int (2 ^ 52) * ulp x \<le> of_int (round_half_even (x / ulp x)) * ulp x"
    using ulp_pos b(1) unfolding pe by (rule scaled_round_ge)
  then have "2 powi e \<le> of_int (round_half_even (x / ulp x)) * ulp x" unfolding pe .
  moreover have "(2 :: rat) powi j \<le> 2 powi e" using je by (rule power_int_increasing) simp
  ultimately show ?thesis by simp
qed

lemma float_round_overflow:
  assumes "2 powi 1024 \<le> x"
  shows "float_round x = PosInf"
proof -
  have x: "0 < x" by (rule less_le_trans [OF _ assms]) simp
  have "2 powi 1024 \<le> of_int (round_half_even (x / ulp x)) * ulp x"
    using assms by (rule float_round_lower) simp
  then show ?thesis unfolding float_round_pos [OF x] by simp
qed

subsection \<open>The split\<close>

lemma float_round_zero: "float_round 0 = Finite 0"
  by (simp add: float_round_def)

lemma float_sub_unit:
  assumes "0 \<le> v" and "v \<le> 1"
  shows "\<exists>d. float_sub (Finite 1) (Finite v) = Finite d \<and> 0 \<le> d \<and> d \<le> 1 \<and>
           \<bar>d - (1 - v)\<bar> \<le> 2 powi (- 53)"
proof (cases "v = 1")
  case True
  then show ?thesis by (simp add: float_round_zero)
next
  case False
  then have x: "0 < 1 - v" and le: "1 - v \<le> 1" using assms by simp_all
  obtain d where d: "float_round (1 - v) = Finite d" "0 \<le> d" "d \<le> 1"
    using float_round_le [OF x le float_round_one] by blast
  have "1 - v < 2 powi 1" using le by simp
  then have "\<bar>d - (1 - v)\<bar> \<le> 2 powi (1 - 54)"
    using x d(1) by (intro float_round_error) simp_all
  then show ?thesis using d by simp
qed

lemma float_round_rows:
  assumes "n < 2 ^ 63"
  shows "\<exists>rows. float_round (of_nat n) = Finite rows \<and> 0 \<le> rows \<and> rows \<le> 2 ^ 63"
proof (cases "n = 0")
  case True
  then show ?thesis by (simp add: float_round_zero)
next
  case False
  then have x: "(0 :: rat) < of_nat n" by simp
  have "n \<le> 2 ^ 63" using assms by simp
  then have "(of_nat n :: rat) \<le> of_nat (2 ^ 63)" by (simp only: of_nat_le_iff)
  then have le: "(of_nat n :: rat) \<le> 2 ^ 63" by simp
  show ?thesis using float_round_le [OF x le float_round_two_63] .
qed

lemma float_mul_le:
  assumes "0 \<le> rows" and "rows \<le> N" and "float_round N = Finite N" and "0 \<le> d" and "d \<le> 1"
  shows "\<exists>p. float_mul (Finite rows) (Finite d) = Finite p \<and> 0 \<le> p \<and> p \<le> N"
proof (cases "rows * d = 0")
  case True
  have "0 \<le> N" using assms(1,2) by simp
  moreover have "float_mul (Finite rows) (Finite d) = Finite 0"
    unfolding float_mul.simps True by (rule float_round_zero)
  ultimately show ?thesis by simp
next
  case False
  then have x: "0 < rows * d" using assms(1,4) by (simp add: zero_less_mult_iff less_le)
  have "rows * d \<le> rows * 1" using assms(1,5) by (intro mult_left_mono)
  then have le: "rows * d \<le> N" using assms(2) by simp
  show ?thesis using float_round_le [OF x le assms(3)] by simp
qed

lemma slice_nonneg:
  assumes "0 \<le> k"
  shows "slice_to k a = take (nat k) a" and "slice_from k a = drop (nat k) a"
proof -
  have "slice_bound (length a) k = min (length a) (nat k)"
    using assms by (simp add: slice_bound_def)
  then show "slice_to k a = take (nat k) a" and "slice_from k a = drop (nat k) a"
    by (simp_all add: slice_to_def slice_from_def min_def)
qed

lemma train_test_split_Finite:
  assumes "float_round (of_nat (length X)) = Finite rows"
    and "float_sub (Finite 1) val_split = Finite d"
    and "float_mul (Finite rows) (Finite d) = Finite p" and "0 \<le> p"
  shows "train_test_split X y val_split =
     Inr (take (nat \<lfloor>p\<rfloor>) X, take (nat \<lfloor>p\<rfloor>) y, drop (nat \<lfloor>p\<rfloor>) X, drop (nat \<lfloor>p\<rfloor>) y)"
proof -
  have k: "0 \<le> \<lfloor>p\<rfloor>" using assms(4) by simp
  have "split_index (length X) val_split = Inr \<lfloor>p\<rfloor>"
    using assms by (simp add: split_index_def int_to_float_def)
  then show ?thesis by (simp add: train_test_split_def slice_nonneg [OF k])
qed

lemma floor_near:
  fixes p t :: rat
  assumes "\<bar>p - t\<bar> \<le> 1 / 2"
  shows "\<bar>\<lfloor>p\<rfloor> - \<lfloor>t\<rfloor>\<bar> \<le> 1"
proof -
  have "of_int \<lfloor>p\<rfloor> \<le> p" "p < of_int \<lfloor>p\<rfloor> + 1" "of_int \<lfloor>t\<rfloor> \<le> t" "t < of_int \<lfloor>t\<rfloor> + 1"
    by linarith+
  then have "(of_int \<lfloor>p\<rfloor> :: rat) < of_int \<lfloor>t\<rfloor> + 2" "(of_int \<lfloor>t\<rfloor> :: rat) < of_int \<lfloor>p\<rfloor> + 2"
    using assms by linarith+
  then have "(of_int \<lfloor>p\<rfloor> :: rat) < of_int (\<lfloor>t\<rfloor> + 2)" "(of_int \<lfloor>t\<rfloor> :: rat) < of_int (\<lfloor>p\<rfloor> + 2)"
    by simp_all
  then have "\<lfloor>p\<rfloor> < \<lfloor>t\<rfloor> + 2" "\<lfloor>t\<rfloor> < \<lfloor>p\<rfloor> + 2" by (simp_all only: of_int_less_iff)
  then show ?thesis by simp
qed

lemma product_near:
  fixes d v :: rat
  assumes n: "n \<le> 2 ^ 51" and d: "0 \<le> d" "d \<le> 1" "\<bar>d - (1 - v)\<bar> \<le> 2 powi (- 53)"
    and p: "float_mul (Finite (of_nat n)) (Finite d) = Finite p"
  shows "\<bar>p - of_nat n * (1 - v)\<bar> \<le> 1 / 2"
proof -
  define x :: rat where "x = of_nat n * d"
  have "(of_nat n :: rat) \<le> of_nat (2 ^ 51)" using n by (simp only: of_nat_le_iff)
  then have nu: "(of_nat n :: rat) \<le> 2 ^ 51" by simp
  have n0: "(0 :: rat) \<le> of_nat n" by simp
  have "x - of_nat n * (1 - v) = of_nat n * (d - (1 - v))" by (simp add: x_def algebra_simps)
  then have "\<bar>x - of_nat n * (1 - v)\<bar> = of_nat n * \<bar>d - (1 - v)\<bar>" by (simp add: abs_mult)
  also have "\<dots> \<le> 2 ^ 51 * 2 powi (- 53)"
    using nu d(3) by (intro mult_mono) simp_all
  also have "\<dots> = 1 / 4" by (simp add: power_int_def power_one_over)
  finally have e1: "\<bar>x - of_nat n * (1 - v)\<bar> \<le> 1 / 4" .
  have fr: "float_round x = Finite p" using p by (simp add: x_def)
  have e2: "\<bar>p - x\<bar> \<le> 1 / 4"
  proof (cases "x = 0")
    case True
    then show ?thesis using fr by (simp add: float_round_zero)
  next
    case False
    have "0 \<le> x" unfolding x_def using n0 d(1) by (rule mult_nonneg_nonneg)
    then have x0: "0 < x" using False by simp
    have "x \<le> of_nat n * 1" unfolding x_def using d(2) n0 by (intro mult_left_mono)
    then have "x \<le> 2 ^ 51" using nu by simp
    then have "x < 2 powi 52" by simp
    then have "\<bar>p - x\<bar> \<le> 2 powi (52 - 54)" using x0 fr by (intro float_round_error) simp_all
    then show ?thesis by (simp add: power_int_def power_one_over)
  qed
  have "\<bar>p - of_nat n * (1 - v)\<bar> \<le> \<bar>p - x\<bar> + \<bar>x - of_nat n * (1 - v)\<bar>" by simp
  then show ?thesis using e1 e2 by simp
qed

text \<open>
  Outside \<open>[0, 1]\<close> the function can raise: with two rows or more and \<open>val_split\<close> at or
  below \<open>-2 ^ 1023\<close> the product is an infinity and \<open>int\<close> raises OverflowError, and on
  NaN it raises ValueError.
\<close>

lemma train_test_split_overflow:
  assumes n: "2 \<le> length X" "length X \<le> 2 ^ 53" and v: "v \<le> - (2 ^ 1023)"
  shows "train_test_split X y (Finite v) = Inl OverflowError"
proof -
  let ?n = "of_nat (length X) :: rat"
  have rows: "float_round ?n = Finite ?n" using n(2) by (rule float_round_nat)
  have n2: "2 \<le> ?n" using n(1) by simp
  have le: "2 powi 1023 \<le> 1 - v" using v by simp
  have x: "0 < 1 - v" by (rule less_le_trans [OF _ le]) simp
  have l: "2 powi 1023 \<le> of_int (round_half_even ((1 - v) / ulp (1 - v))) * ulp (1 - v)"
    using le by (rule float_round_lower) simp
  have "float_mul (Finite ?n) (float_sub (Finite 1) (Finite v)) = PosInf"
  proof (cases "float_round (1 - v)")
    case (Finite d)
    then have "d = of_int (round_half_even ((1 - v) / ulp (1 - v))) * ulp (1 - v)"
      using float_round_Finite_pos(1) [OF x] by simp
    then have d: "2 powi 1023 \<le> d" using l by simp
    have "2 * 2 powi 1023 \<le> ?n * d" using n2 d by (intro mult_mono) simp_all
    then have "2 powi 1024 \<le> ?n * d" by simp
    then have "float_round (?n * d) = PosInf" by (rule float_round_overflow)
    then show ?thesis using Finite by simp
  next
    case PosInf
    have "X \<noteq> []" using n(1) by auto
    then show ?thesis using PosInf by simp
  next
    case NegInf
    then show ?thesis unfolding float_round_pos [OF x] by (simp split: if_splits)
  next
    case NaN
    then show ?thesis unfolding float_round_pos [OF x] by (simp split: if_splits)
  qed
  then show ?thesis using rows by (simp add: train_test_split_def split_index_def int_to_float_def)
qed

lemma train_test_split_nan:
  assumes "length X \<le> 2 ^ 53"
  shows "train_test_split X y NaN = Inl ValueError"
  using float_round_nat [OF assms]
  by (simp add: train_test_split_def split_index_def int_to_float_def)

text \<open>
  C5.  For arrays \<open>X\<close> and \<open>y\<close> of equal length (below \<open>2 ^ 63\<close>, the bound of a numpy
  shape) and a double \<open>val_split\<close> in \<open>[0, 1]\<close>, \<open>train_test_split\<close> returns
  \<open>(X[:k], y[:k], X[k:], y[k:])\<close> where \<open>k\<close> is \<open>int(len(X) * (1 - val_split))\<close> as
  double precision computes it: the length converted to a double, the difference rounded,
  the product rounded, the fraction cut off.  The two parts of \<open>X\<close> put together are \<open>X\<close>
  again, and so for \<open>y\<close>.  With at most \<open>2 ^ 53\<close> rows the length is converted exactly,
  \<open>k\<close> is at most the length and both first parts have \<open>k\<close> rows.  Where nothing is
  rounded \<open>k\<close> is the floor of \<open>len(X) * (1 - val_split)\<close>, and with at most \<open>2 ^ 51\<close>
  rows it is never further than one from that floor.
\<close>

theorem train_test_split_slices:
  assumes "length X = length y" and "length X < 2 ^ 63"
    and "float_round v = Finite v" and "0 \<le> v" and "v \<le> 1"
  shows "\<exists>rows d p k.
      float_round (of_nat (length X)) = Finite rows \<and>
      float_sub (Finite 1) (Finite v) = Finite d \<and>
      float_mul (Finite rows) (Finite d) = Finite p \<and> 0 \<le> p \<and> k = nat \<lfloor>p\<rfloor> \<and>
      train_test_split X y (Finite v) = Inr (take k X, take k y, drop k X, drop k y) \<and>
      take k X @ drop k X = X \<and> take k y @ drop k y = y \<and>
      (length X \<le> 2 ^ 53 \<longrightarrow>
         rows = of_nat (length X) \<and> k \<le> length X \<and>
         length (take k X) = k \<and> length (take k y) = k) \<and>
      (rows = of_nat (length X) \<and> d = 1 - v \<and> p = rows * d \<longrightarrow>
         int k = \<lfloor>of_nat (length X) * (1 - v)\<rfloor>) \<and>
      (length X \<le> 2 ^ 51 \<longrightarrow> \<bar>int k - \<lfloor>of_nat (length X) * (1 - v)\<rfloor>\<bar> \<le> 1)"
proof -
  let ?n = "length X"
  obtain rows where rows: "float_round (of_nat ?n) = Finite rows" "0 \<le> rows" "rows \<le> 2 ^ 63"
    using float_round_rows [OF assms(2)] by blast
  obtain d where d: "float_sub (Finite 1) (Finite v) = Finite d" "0 \<le> d" "d \<le> 1"
      "\<bar>d - (1 - v)\<bar> \<le> 2 powi (- 53)"
    using float_sub_unit [OF assms(4,5)] by blast
  obtain p where p: "float_mul (Finite rows) (Finite d) = Finite p" "0 \<le> p"
    using float_mul_le [OF rows(2,3) float_round_two_63 d(2,3)] by blast
  define k where "k = nat \<lfloor>p\<rfloor>"
  have ik: "int k = \<lfloor>p\<rfloor>" using p(2) by (simp add: k_def)
  have res: "train_test_split X y (Finite v) = Inr (take k X, take k y, drop k X, drop k y)"
    unfolding k_def using rows(1) d(1) p by (rule train_test_split_Finite)
  have small: "rows = of_nat ?n \<and> k \<le> ?n \<and> length (take k X) = k \<and> length (take k y) = k"
    if n: "?n \<le> 2 ^ 53"
  proof -
    have rn: "float_round (of_nat ?n) = Finite (of_nat ?n)" using n by (rule float_round_nat)
    then have r: "rows = of_nat ?n" using rows(1) by simp
    obtain p' where p': "float_mul (Finite rows) (Finite d) = Finite p'" "p' \<le> of_nat ?n"
      using float_mul_le [OF rows(2) _ rn d(2,3)] r by auto
    then have "p \<le> of_nat ?n" using p(1) by simp
    then have "\<lfloor>p\<rfloor> \<le> int ?n" by (simp add: floor_le_iff)
    then have "k \<le> ?n" by (simp add: k_def)
    then show ?thesis using r assms(1) by simp
  qed
  have exact: "int k = \<lfloor>of_nat ?n * (1 - v)\<rfloor>"
    if "rows = of_nat ?n \<and> d = 1 - v \<and> p = rows * d"
    using that ik by simp
  have near: "\<bar>int k - \<lfloor>of_nat ?n * (1 - v)\<rfloor>\<bar> \<le> 1" if n: "?n \<le> 2 ^ 51"
  proof -
    have "?n \<le> 2 ^ 53" using n by simp
    then have r: "rows = of_nat ?n" using small by simp
    have "\<bar>p - of_nat ?n * (1 - v)\<bar> \<le> 1 / 2"
      using n d(2,3,4) p(1) unfolding r by (rule product_near)
    then show ?thesis unfolding ik by (rule floor_near)
  qed
  show ?thesis
    using rows(1) d(1) p res small exact near k_def by (intro exI [of _ rows] exI [of _ d] exI [of _ p] exI [of _ k]) simp
qed

text \<open>Eight rows and \<open>val_split = 0.25\<close>: nothing is rounded, \<open>k = 6\<close>.\<close>

theorem train_test_split_slices_witness:
  "length [0, 1, 2, 3, 4, 5, 6, 7 :: nat] = length ''abcdefgh'' \<and>
   length [0, 1, 2, 3, 4, 5, 6, 7 :: nat] < 2 ^ 63 \<and>
   float_round (1 / 4) = Finite (1 / 4) \<and> (0 :: rat) \<le> 1 / 4 \<and> (1 / 4 :: rat) \<le> 1 \<and>
   length [0, 1, 2, 3, 4, 5, 6, 7 :: nat] \<le> 2 ^ 51 \<and>
   float_round (of_nat (length [0, 1, 2, 3, 4, 5, 6, 7 :: nat])) = Finite 8 \<and>
   float_sub (Finite 1) (Finite (1 / 4)) = Finite (3 / 4) \<and>
   float_mul (Finite 8) (Finite (3 / 4)) = Finite 6 \<and>
   train_test_split [0, 1, 2, 3, 4, 5, 6, 7 :: nat] ''abcdefgh'' (Finite (1 / 4)) =
     Inr ([0, 1, 2, 3, 4, 5], ''abcdef'', [6, 7], ''gh'') \<and>
   \<lfloor>of_nat (length [0, 1, 2, 3, 4, 5, 6, 7 :: nat]) * (1 - 1 / 4 :: rat)\<rfloor> = 6"
proof -
  let ?X = "[0, 1, 2, 3, 4, 5, 6, 7 :: nat]"
  have h1: "length ?X = length ''abcdefgh''" "length ?X < 2 ^ 63" by simp_all
  have h2: "float_round (1 / 4) = Finite (1 / 4)" by code_simp
  have h3: "(0 :: rat) \<le> 1 / 4" "(1 / 4 :: rat) \<le> 1" by simp_all
  note h = h1 h2 h3
  have f: "\<lfloor>of_nat (length ?X) * (1 - 1 / 4 :: rat)\<rfloor> = 6" by code_simp
  have c: "float_round (of_nat (length ?X)) = Finite 8"
    "float_sub (Finite 1) (Finite (1 / 4)) = Finite (3 / 4)"
    "float_mul (Finite 8) (Finite (3 / 4)) = Finite 6"
    by code_simp+
  obtain rows d p k where r: "float_round (of_nat (length ?X)) = Finite rows"
      "float_sub (Finite 1) (Finite (1 / 4)) = Finite d"
      "float_mul (Finite rows) (Finite d) = Finite p" "k = nat \<lfloor>p\<rfloor>"
      "train_test_split ?X ''abcdefgh'' (Finite (1 / 4)) =
         Inr (take k ?X, take k ''abcdefgh'', drop k ?X, drop k ''abcdefgh'')"
    using train_test_split_slices [OF h] by blast
  have rows: "rows = 8" using r(1) unfolding c(1) by (simp only: double.inject)
  have d: "d = 3 / 4" using r(2) unfolding c(2) by (simp only: double.inject)
  have p: "p = 6" using r(3) unfolding rows d c(3) by (simp only: double.inject)
  have k: "k = 6" unfolding r(4) p by simp
  have "train_test_split ?X ''abcdefgh'' (Finite (1 / 4)) =
      Inr ([0, 1, 2, 3, 4, 5], ''abcdef'', [6, 7], ''gh'')"
    unfolding r(5) k by simp
  moreover have "length ?X \<le> 2 ^ 51" by simp
  ultimately show ?thesis using h f c by blast
qed

text \<open>
  Rounding moves \<open>k\<close> off the floor of the exact product.  \<open>val_split = 2 ^ -54\<close> is a
  double in \<open>[0, 1]\<close>; the difference \<open>1 - val_split\<close> rounds to 1.0, so with one row
  \<open>k\<close> is 1 and the row goes to the first part, where the floor of \<open>1 * (1 - 2 ^ -54)\<close>
  is 0 and \<open>(X[:0], y[:0], X[0:], y[0:])\<close> has the row in the second part.
\<close>

theorem train_test_split_rounding_counterexample:
  "length [7 :: nat] = length [True] \<and>
   float_round (1 / 2 ^ 54) = Finite (1 / 2 ^ 54) \<and> (0 :: rat) \<le> 1 / 2 ^ 54 \<and> (1 / 2 ^ 54 :: rat) \<le> 1 \<and>
   train_test_split [7 :: nat] [True] (Finite (1 / 2 ^ 54)) = Inr ([7], [True], [], []) \<and>
   \<lfloor>of_nat (length [7 :: nat]) * (1 - 1 / 2 ^ 54 :: rat)\<rfloor> = 0 \<and>
   (slice_to 0 [7 :: nat], slice_to 0 [True], slice_from 0 [7 :: nat], slice_from 0 [True]) =
     ([], [], [7], [True])"
  by code_simp

section \<open>Properties of shuffle\<close>

lemma zip_map_nth:
  assumes "length y = length X" and "\<forall>j\<in>set js. 0 \<le> j \<and> j < int (length X)"
  shows "zip (map (\<lambda>j. X ! nat j) js) (map (\<lambda>j. y ! nat j) js) = map (\<lambda>j. zip X y ! nat j) js"
  using assms
proof (induction js)
  case Nil
  then show ?case by simp
next
  case (Cons a js)
  then have "0 \<le> a" "a < int (length X)" by simp_all
  then have "nat a < length X" by linarith
  then have "nat a < length X" "nat a < length y" using Cons.prems(1) by simp_all
  then have "zip X y ! nat a = (X ! nat a, y ! nat a)" by simp
  then show ?case using Cons by simp
qed

lemma mset_map_permuted:
  assumes "mset indices = mset (map int [0..<length xs])"
  shows "mset (map (\<lambda>j. xs ! nat j) indices) = mset xs"
proof -
  have "mset (map (\<lambda>j. xs ! nat j) indices) = image_mset (\<lambda>j. xs ! nat j) (mset indices)"
    by simp
  also have "\<dots> = image_mset (\<lambda>j. xs ! nat j) (mset (map int [0..<length xs]))"
    using assms by simp
  also have "\<dots> = mset (map (\<lambda>i. xs ! i) [0..<length xs])"
    by (simp add: comp_def multiset.map_comp)
  also have "\<dots> = mset xs" by (simp add: map_nth)
  finally show ?thesis .
qed

text \<open>
  C6.  When \<open>X\<close> and \<open>y\<close> have the same length and \<open>np.random.shuffle\<close> leaves in
  \<open>indices\<close> a permutation of \<open>0 .. len(X) - 1\<close> (what the library routine does),
  \<open>shuffle\<close> returns \<open>X\<close> and \<open>y\<close> both reordered by \<open>indices\<close>: the lengths are kept,
  position \<open>p\<close> of both results comes from position \<open>indices[p]\<close> of the inputs, and the
  multiset of pairs \<open>(X[i], y[i])\<close> is the same.
\<close>

theorem shuffle_same_permutation:
  assumes len: "length y = length X"
    and rs: "random_shuffle g (map int [0..<length X]) = (indices, g')"
    and perm: "mset indices = mset (map int [0..<length X])"
  shows "\<exists>X' y'. shuffle random_shuffle g X y = (Inr (X', y'), g') \<and>
      X' = map (\<lambda>j. X ! nat j) indices \<and> y' = map (\<lambda>j. y ! nat j) indices \<and>
      length X' = length X \<and> length y' = length y \<and>
      mset (zip X' y') = mset (zip X y)"
proof -
  let ?X' = "map (\<lambda>j. X ! nat j) indices" and ?y' = "map (\<lambda>j. y ! nat j) indices"
  have "set indices = set (map int [0..<length X])" using perm by (rule mset_eq_setD)
  then have rng: "\<forall>j\<in>set indices. 0 \<le> j \<and> j < int (length X)" by auto
  have tx: "take_indices X indices = Inr ?X'" using rng by (rule take_indices_in_range)
  have ty: "take_indices y indices = Inr ?y'" using rng len by (intro take_indices_in_range) simp
  have eq: "shuffle random_shuffle g X y = (Inr (?X', ?y'), g')"
    using rs tx ty by (simp add: shuffle_def Let_def)
  have "length indices = length (map int [0..<length X])" using perm by (rule mset_eq_length)
  then have li: "length indices = length X" by simp
  have "mset (zip ?X' ?y') = mset (map (\<lambda>j. zip X y ! nat j) indices)"
    using zip_map_nth [OF len rng] by simp
  also have "\<dots> = mset (zip X y)"
    using perm len by (intro mset_map_permuted) simp
  finally have ms: "mset (zip ?X' ?y') = mset (zip X y)" .
  show ?thesis using eq li len ms by simp
qed

text \<open>Three rows under the generator that reverses.\<close>

theorem shuffle_same_permutation_witness:
  "length ''abc'' = length [10, 20, 30 :: nat] \<and>
   reverse_shuffle 0 (map int [0..<length [10, 20, 30 :: nat]]) = ([2, 1, 0], 1) \<and>
   mset [2, 1, 0 :: int] = mset (map int [0..<length [10, 20, 30 :: nat]]) \<and>
   shuffle reverse_shuffle 0 [10, 20, 30 :: nat] ''abc'' = (Inr ([30, 20, 10], ''cba''), 1)"
proof -
  let ?X = "[10, 20, 30 :: nat]"
  have u: "[0..<length ?X] = [0, 1, 2]" by (simp add: upt_rec)
  have h1: "length ''abc'' = length ?X" by simp
  have h2: "reverse_shuffle 0 (map int [0..<length ?X]) = ([2, 1, 0], 1)"
    unfolding u by (simp add: reverse_shuffle_def)
  have h3: "mset [2, 1, 0 :: int] = mset (map int [0..<length ?X])"
    unfolding u by simp
  obtain X' y' where r: "shuffle reverse_shuffle 0 ?X ''abc'' = (Inr (X', y'), 1)"
    "X' = map (\<lambda>j. ?X ! nat j) [2, 1, 0]" "y' = map (\<lambda>j. ''abc'' ! nat j) [2, 1, 0]"
    using shuffle_same_permutation [of "''abc''" ?X reverse_shuffle 0 "[2, 1, 0]" 1, OF h1 h2 h3]
    by blast
  have "X' = [30, 20, 10]" "y' = ''cba''" using r(2,3) by simp_all
  then show ?thesis using h1 h2 h3 r(1) by simp
qed

section \<open>Properties of vectorize_sequences\<close>

lemma fold_ones_length: "length (fold (\<lambda>j row. row[j := (1::rat)]) js row) = length row"
  by (induction js arbitrary: row) simp_all

lemma fold_ones_nth:
  assumes "j' < length row"
  shows "fold (\<lambda>j row. row[j := (1::rat)]) js row ! j' = (if j' \<in> set js then 1 else row ! j')"
  using assms
proof (induction js arbitrary: row)
  case Nil
  then show ?case by simp
next
  case (Cons j js)
  have "fold (\<lambda>j row. row[j := 1]) (j # js) row ! j'
      = (if j' \<in> set js then 1 else (row[j := 1]) ! j')"
    using Cons.IH [of "row[j := 1]"] Cons.prems by simp
  then show ?case using Cons.prems by (auto simp add: nth_list_update)
qed

lemma collect_np_index:
  assumes "\<forall>j\<in>set s. 0 \<le> j \<and> j < int d"
  shows "collect (map (np_index d) s) = Inr (map nat s)"
proof -
  have "map (np_index d) s = map (\<lambda>j. Inr (nat j)) s"
    using assms by (intro map_cong refl) (simp add: np_index_def)
  then show ?thesis by (simp only: collect_map_Inr)
qed

lemma assign_ones_valid:
  assumes "\<forall>j\<in>set s. 0 \<le> j \<and> j < int d"
  shows "assign_ones d s results i = Inr (results[i := ones_row d s (results ! i)])"
  using collect_np_index [OF assms] by (simp add: assign_ones_def ones_row_def)

lemma vectorize_loop_valid:
  assumes "\<forall>s\<in>set seqs. \<forall>j\<in>set s. 0 \<le> j \<and> j < int d"
    and "i + length seqs \<le> length results"
  shows "\<exists>R. vectorize_loop d i seqs results = Inr R \<and> length R = length results \<and>
      (\<forall>r<length results. R ! r =
         (if i \<le> r \<and> r < i + length seqs then ones_row d (seqs ! (r - i)) (results ! r)
          else results ! r))"
  using assms
proof (induction seqs arbitrary: i results)
  case Nil
  then show ?case by auto
next
  case (Cons s seqs)
  let ?res = "results[i := ones_row d s (results ! i)]"
  have s: "\<forall>j\<in>set s. 0 \<le> j \<and> j < int d" using Cons.prems(1) by simp
  have step: "vectorize_loop d i (s # seqs) results = vectorize_loop d (i + 1) seqs ?res"
    using assign_ones_valid [OF s] by simp
  have "\<forall>s\<in>set seqs. \<forall>j\<in>set s. 0 \<le> j \<and> j < int d" using Cons.prems(1) by simp
  moreover have "i + 1 + length seqs \<le> length ?res" using Cons.prems(2) by simp
  ultimately obtain R where R: "vectorize_loop d (i + 1) seqs ?res = Inr R"
    "length R = length ?res"
    "\<forall>r<length ?res. R ! r =
         (if i + 1 \<le> r \<and> r < i + 1 + length seqs then ones_row d (seqs ! (r - (i + 1))) (?res ! r)
          else ?res ! r)"
    using Cons.IH [of "i + 1" ?res] by blast
  have "R ! r = (if i \<le> r \<and> r < i + length (s # seqs)
                 then ones_row d ((s # seqs) ! (r - i)) (results ! r) else results ! r)"
    if r: "r < length results" for r
  proof -
    consider (lt) "r < i" | (eq) "r = i" | (gt) "i < r" by linarith
    then show ?thesis
    proof cases
      case lt
      then show ?thesis using R(3) r by simp
    next
      case eq
      then show ?thesis using R(3) r by simp
    next
      case gt
      then have "(s # seqs) ! (r - i) = seqs ! (r - (i + 1))"
        by (simp add: nth_Cons')
      then show ?thesis using R(3) r gt by simp
    qed
  qed
  then show ?case using step R(1,2) by simp
qed

text \<open>
  C7.  For a dimension that is not negative and sequences whose indices are all at least 0
  and smaller than the dimension, \<open>vectorize_sequences\<close> returns a matrix with one row
  per sequence and \<open>dimension\<close> columns whose entry \<open>(i, j)\<close> is 1 if \<open>j\<close> occurs in
  \<open>sequences[i]\<close> and 0 otherwise.
\<close>

theorem vectorize_sequences_indicator:
  assumes "0 \<le> dimension"
    and "\<forall>s\<in>set sequences. \<forall>j\<in>set s. 0 \<le> j \<and> j < dimension"
  shows "\<exists>M. vectorize_sequences sequences dimension = Inr M \<and>
      length M = length sequences \<and>
      (\<forall>i<length sequences. length (M ! i) = nat dimension \<and>
         (\<forall>j<nat dimension. M ! i ! j = (if int j \<in> set (sequences ! i) then 1 else 0)))"
proof -
  let ?d = "nat dimension" and ?n = "length sequences"
  let ?zeros = "replicate ?n (replicate ?d (0::rat))"
  have v: "\<forall>s\<in>set sequences. \<forall>j\<in>set s. 0 \<le> j \<and> j < int ?d"
    using assms by simp
  obtain R where R: "vectorize_loop ?d 0 sequences ?zeros = Inr R" "length R = length ?zeros"
    "\<forall>r<length ?zeros. R ! r =
         (if 0 \<le> r \<and> r < 0 + length sequences then ones_row ?d (sequences ! (r - 0)) (?zeros ! r)
          else ?zeros ! r)"
    using vectorize_loop_valid [OF v, of 0 ?zeros] by auto
  have eq: "vectorize_sequences sequences dimension = Inr R"
    using assms(1) R(1) by (simp add: vectorize_sequences_def)
  have row: "length (R ! i) = ?d \<and>
         (\<forall>j<?d. R ! i ! j = (if int j \<in> set (sequences ! i) then 1 else 0))"
    if i: "i < ?n" for i
  proof -
    have Ri: "R ! i = ones_row ?d (sequences ! i) (replicate ?d 0)"
      using R(3) i by simp
    have "sequences ! i \<in> set sequences" using i by simp
    then have nn: "\<forall>j\<in>set (sequences ! i). 0 \<le> j" using assms(2) by blast
    have mem: "(j \<in> set (map nat (sequences ! i))) = (int j \<in> set (sequences ! i))" for j
    proof
      assume "j \<in> set (map nat (sequences ! i))"
      then obtain x where x: "x \<in> set (sequences ! i)" "j = nat x" by auto
      then have "int j = x" using nn by simp
      then show "int j \<in> set (sequences ! i)" using x by simp
    next
      assume "int j \<in> set (sequences ! i)"
      then have "nat (int j) \<in> set (map nat (sequences ! i))" by (simp only: set_map image_eqI)
      then show "j \<in> set (map nat (sequences ! i))" by simp
    qed
    have "R ! i ! j = (if int j \<in> set (sequences ! i) then 1 else 0)" if "j < ?d" for j
      unfolding Ri ones_row_def using that by (simp add: fold_ones_nth mem del: set_map)
    then show ?thesis unfolding Ri ones_row_def by (simp add: fold_ones_length)
  qed
  show ?thesis using eq R(2) row by (intro exI[of _ R]) simp
qed

text \<open>
  A negative index is smaller than the dimension and numpy counts it from the end of the
  row: the sequence \<open>[-1]\<close> sets column 2 of 3, an index that does not occur in it.
\<close>

theorem vectorize_sequences_negative_index_counterexample:
  "(-1 :: int) < 3 \<and>
   vectorize_sequences [[-1]] 3 = Inr [[0, 0, 1]] \<and> int 2 \<notin> set ([[-1]] ! 0)"
  by (simp add: vectorize_sequences_def assign_ones_def np_index_def numeral_3_eq_3)

text \<open>Two sequences, one with a repeated index and one empty, in dimension 4.\<close>

theorem vectorize_sequences_indicator_witness:
  "(0 :: int) \<le> 4 \<and> (0 :: int) \<le> 3 \<and> (3 :: int) < 4 \<and> (0 :: int) \<le> 1 \<and> (1 :: int) < 4 \<and>
   (\<exists>M. vectorize_sequences [[3, 1, 3], []] 4 = Inr M \<and> length M = 2 \<and>
      length (M ! 0) = 4 \<and> M ! 0 ! 1 = 1 \<and> M ! 0 ! 3 = 1 \<and> M ! 0 ! 0 = 0 \<and> M ! 1 ! 3 = 0)"
proof -
  let ?S = "[[3, 1, 3], [] :: int list]"
  have h: "(0 :: int) \<le> 4" "\<forall>s\<in>set ?S. \<forall>j\<in>set s. 0 \<le> j \<and> j < 4" by simp_all
  obtain M where M: "vectorize_sequences ?S 4 = Inr M" "length M = length ?S"
    "\<forall>i<length ?S. length (M ! i) = nat 4 \<and>
         (\<forall>j<nat 4. M ! i ! j = (if int j \<in> set (?S ! i) then 1 else 0))"
    using vectorize_sequences_indicator [OF h] by blast
  have "length (M ! 0) = 4" "M ! 0 ! 1 = 1" "M ! 0 ! 3 = 1" "M ! 0 ! 0 = 0" "M ! 1 ! 3 = 0"
    using M(3) by simp_all
  then show ?thesis using M(1,2) by auto
qed

section \<open>Properties of get_data_from_dir\<close>

lemma is_image_cases:
  assumes "is_image e"
  obtains name img where "e = (name, File (Some img))"
  using assms by (cases e rule: is_image.cases) simp_all

lemma load_images_all:
  assumes "list_all is_image es"
    and "list_all (resizes resize sz) (concat (map image_of es))"
  shows "load_images resize sz es imgs =
     Inr (imgs @ map (array_of resize sz) (concat (map image_of es)))"
  using assms
proof (induction es arbitrary: imgs)
  case Nil
  then show ?case by simp
next
  case (Cons e es)
  then have "is_image e" by simp
  then obtain name img where e: "e = (name, File (Some img))" by (rule is_image_cases)
  have "resizes resize sz img" using Cons.prems(2) unfolding e by simp
  then obtain a where a: "resize sz img = Inr a"
    by (cases "resize sz img") (simp_all add: resizes_def)
  show ?case using Cons a unfolding e by (simp add: array_of_def)
qed

lemma length_images:
  assumes "list_all is_image es"
  shows "length (concat (map image_of es)) = length es"
  using assms
proof (induction es)
  case Nil
  then show ?case by simp
next
  case (Cons e es)
  then have "is_image e" by simp
  then obtain name img where e: "e = (name, File (Some img))" by (rule is_image_cases)
  show ?case using Cons unfolding e by simp
qed

lemma is_class_dir_cases:
  assumes "is_class_dir f"
  obtains name es where "f = (name, Dir es)" and "list_all is_image es"
  using assms by (cases f rule: is_class_dir.cases) simp_all

lemma load_classes_all:
  assumes "list_all is_class_dir files"
    and "list_all (\<lambda>f. list_all (resizes resize sz) (class_images f)) files"
  shows "load_classes resize sz i files (imgs, labels, labels_list) =
     Inr (imgs @ concat (map (\<lambda>f. map (array_of resize sz) (class_images f)) files),
          labels @ map (\<lambda>k. replicate (length (class_images (files ! (k - i)))) k) [i..<i + length files],
          labels_list @ map fst files)"
  using assms
proof (induction files arbitrary: i imgs labels labels_list)
  case Nil
  then show ?case by simp
next
  case (Cons f files)
  then have "is_class_dir f" by simp
  then obtain name es where f: "f = (name, Dir es)" and es: "list_all is_image es"
    by (rule is_class_dir_cases)
  have rest: "list_all is_class_dir files"
    "list_all (\<lambda>f. list_all (resizes resize sz) (class_images f)) files"
    using Cons.prems by simp_all
  have ok: "list_all (resizes resize sz) (concat (map image_of es))"
    using Cons.prems(2) unfolding f by simp
  have n: "length es = length (class_images f)" using length_images [OF es] f by simp
  have shift: "map (\<lambda>k. replicate (length (class_images ((f # files) ! (k - i)))) k) [Suc i..<Suc i + length files]
      = map (\<lambda>k. replicate (length (class_images (files ! (k - Suc i)))) k) [Suc i..<Suc i + length files]"
    by (intro map_cong refl) (auto simp add: nth_Cons' Suc_diff_le)
  have "i < i + length (f # files)" by simp
  then have "[i..<i + length (f # files)] = i # [Suc i..<i + length (f # files)]"
    by (rule upt_conv_Cons)
  then have up: "[i..<i + length (f # files)] = i # [Suc i..<Suc i + length files]"
    by (simp del: upt_Suc)
  have "load_classes resize sz i (f # files) (imgs, labels, labels_list) =
      load_classes resize sz (i + 1) files
        (imgs @ map (array_of resize sz) (class_images f), labels @ [replicate (length (class_images f)) i],
         labels_list @ [name])"
    unfolding f using n f by (simp add: load_images_all [OF es ok])
  also have "\<dots> = Inr ((imgs @ map (array_of resize sz) (class_images f)) @
          concat (map (\<lambda>f. map (array_of resize sz) (class_images f)) files),
        (labels @ [replicate (length (class_images f)) i]) @
          map (\<lambda>k. replicate (length (class_images (files ! (k - (i + 1))))) k) [i + 1..<i + 1 + length files],
        (labels_list @ [name]) @ map fst files)"
    by (rule Cons.IH [OF rest])
  finally show ?case unfolding up using shift f by simp
qed

lemma zip_map_replicate: "zip (map f xs) (replicate (length xs) k) = map (\<lambda>x. (f x, k)) xs"
  by (induction xs) simp_all

lemma zip_concat_labels:
  "zip (concat (map (\<lambda>k. map f (A k)) ks)) (concat (map (\<lambda>k. replicate (length (A k)) k) ks))
     = concat (map (\<lambda>k. map (\<lambda>x. (f x, k)) (A k)) ks)"
  by (induction ks) (simp_all add: zip_map_replicate)

lemma same_shape_all:
  assumes "list_all (\<lambda>a. shape a = s) arrays"
  shows "same_shape arrays"
proof (cases arrays)
  case Nil
  then show ?thesis by simp
next
  case (Cons a rest)
  then have "shape a = s" and "list_all (\<lambda>b. shape b = s) rest" using assms by simp_all
  then show ?thesis unfolding Cons by (simp add: list_all_iff)
qed

text \<open>
  C3.  For a directory with at least one entry whose entries are all class directories of
  images, the images being resized to arrays of one shape, \<open>get_data_from_dir\<close> returns
  \<open>(imgs, labels, labels_list)\<close> where \<open>labels_list\<close> holds the names of the
  subdirectories in listing order, there are as many labels as images, every label is
  smaller than the number of subdirectories, and the images paired with their labels are,
  class after class, the resized images of the \<open>k\<close>-th subdirectory each with the label
  \<open>k\<close>.
\<close>

theorem get_data_from_dir_labels:
  assumes "files \<noteq> []" and "list_all is_class_dir files"
    and "list_all (\<lambda>f. list_all (resized resize sz s) (class_images f)) files"
  shows "\<exists>imgs labels labels_list.
     get_data_from_dir resize (Dir files) sz = Inr (imgs, labels, labels_list) \<and>
     labels_list = map fst files \<and> length labels = length imgs \<and>
     (\<forall>l\<in>set labels. l < length files) \<and>
     zip imgs labels =
       concat (map (\<lambda>k. map (\<lambda>img. (array_of resize sz img, k)) (class_images (files ! k)))
         [0..<length files])"
proof -
  let ?A = "\<lambda>k. class_images (files ! k)" and ?ks = "[0..<length files]"
  let ?imgs = "concat (map (\<lambda>k. map (array_of resize sz) (?A k)) ?ks)"
  let ?parts = "map (\<lambda>k. replicate (length (?A k)) k) ?ks"
  have ok: "list_all (\<lambda>f. list_all (resizes resize sz) (class_images f)) files"
    using assms(3) by (auto simp add: list_all_iff resized_def)
  have "map (\<lambda>f. map (array_of resize sz) (class_images f)) files =
      map (\<lambda>k. map (array_of resize sz) (?A k)) ?ks"
    by (rule nth_equalityI) simp_all
  then have lc: "load_classes resize sz 0 files ([], [], []) = Inr (?imgs, ?parts, map fst files)"
    using load_classes_all [OF assms(2) ok, of 0 "[]" "[]" "[]"] by simp
  have "list_all (\<lambda>a. shape a = s) ?imgs"
    using assms(3) by (auto simp add: list_all_iff resized_def)
  then have "same_shape ?imgs" by (rule same_shape_all)
  then have arr: "np_asarray ?imgs = Inr ?imgs" by (simp add: np_asarray_def)
  have ne: "?parts \<noteq> []" using assms(1) by simp
  have eq: "get_data_from_dir resize (Dir files) sz = Inr (?imgs, concat ?parts, map fst files)"
    using lc arr ne by (simp add: get_data_from_dir_def np_hstack_def)
  have z: "zip ?imgs (concat ?parts) =
      concat (map (\<lambda>k. map (\<lambda>img. (array_of resize sz img, k)) (?A k)) ?ks)"
    by (rule zip_concat_labels)
  have len: "length (concat ?parts) = length ?imgs"
    by (simp add: length_concat comp_def)
  have rng: "\<forall>l\<in>set (concat ?parts). l < length files" by auto
  show ?thesis using eq len rng z by blast
qed

text \<open>
  In a directory without entries the loop appends nothing to \<open>labels\<close> and
  \<open>np.hstack(labels)\<close> raises ValueError.  In a class that holds a one-channel and a
  three-channel image the arrays differ in shape and \<open>np.asarray(imgs)\<close> raises ValueError.
\<close>

theorem get_data_from_dir_empty_counterexample:
  "list_all is_class_dir ([] :: (string \<times> nat ndarray entry) list) \<and>
   get_data_from_dir keep_image (Dir []) [100, 100] = Inl ValueError \<and>
   mixed_dir \<noteq> [] \<and> list_all is_class_dir mixed_dir \<and>
   get_data_from_dir keep_image (Dir mixed_dir) [100, 100] = Inl ValueError"
  by (simp add: get_data_from_dir_def np_hstack_def np_asarray_def mixed_dir_def keep_image_def)

text \<open>Two classes, with two images and with one.\<close>

theorem get_data_from_dir_labels_witness:
  "fruit_dir \<noteq> [] \<and> list_all is_class_dir fruit_dir \<and>
   list_all (\<lambda>f. list_all (resized keep_image [100, 100] [1, 1]) (class_images f)) fruit_dir \<and>
   (\<exists>imgs labels labels_list.
      get_data_from_dir keep_image (Dir fruit_dir) [100, 100] = Inr (imgs, labels, labels_list) \<and>
      labels_list = [''Apple'', ''Pear''] \<and> length labels = length imgs \<and>
      zip imgs labels =
        [(Arr2 1 1 [[11]], 0), (Arr2 1 1 [[12]], 0), (Arr2 1 1 [[21]], 1)])"
proof -
  have h: "fruit_dir \<noteq> []" "list_all is_class_dir fruit_dir"
    "list_all (\<lambda>f. list_all (resized keep_image [100, 100] [1, 1]) (class_images f)) fruit_dir"
    by (simp_all add: fruit_dir_def keep_image_def resized_def resizes_def array_of_def)
  have l: "[0..<length fruit_dir] = [0, 1]" by (simp add: fruit_dir_def upt_rec)
  obtain imgs labels labels_list where r:
    "get_data_from_dir keep_image (Dir fruit_dir) [100, 100] = Inr (imgs, labels, labels_list)"
    "labels_list = map fst fruit_dir" "length labels = length imgs"
    "zip imgs labels =
       concat (map (\<lambda>k. map (\<lambda>img. (array_of keep_image [100, 100] img, k)) (class_images (fruit_dir ! k)))
         [0..<length fruit_dir])"
    using get_data_from_dir_labels [OF h] by blast
  have "labels_list = [''Apple'', ''Pear'']" using r(2) by (simp add: fruit_dir_def)
  moreover have "zip imgs labels = [(Arr2 1 1 [[11]], 0), (Arr2 1 1 [[12]], 0), (Arr2 1 1 [[21]], 1)]"
    unfolding r(4) l by (simp add: fruit_dir_def keep_image_def array_of_def)
  ultimately show ?thesis using h r(1,3) by blast
qed

section \<open>Properties of organize_series\<close>










end
